theory Spec2Isabelle
  imports Complex_Main "HOL-Library.Log_Nat"
begin

section \<open>Static-shape array kernels of \<open>jax/_src/numpy/lax_numpy.py\<close>\<close>

text \<open>
  The kernels are pure functions over immutable arrays.  Every \<open>raise\<close> of the source
  is a value of \<open>error\<close>; a function that can raise returns \<open>error + 'a\<close>.
\<close>

datatype error = ValueError | TypeError | NotImplementedError | IndexError | ZeroDivisionError

subsection \<open>Index-array primitives\<close>

text \<open>
  \<open>x.at[idx].set(vals)\<close> on a one-dimensional array, for non-negative indices: updates
  whose index is out of bounds are dropped (the default scatter mode), which is what
  \<open>list_update\<close> does.  JAX leaves the winner among duplicate indices unspecified; here
  the last one wins, and every property below is about distinct indices.
\<close>

definition at_set :: "'a list \<Rightarrow> nat list \<Rightarrow> 'a list \<Rightarrow> 'a list" where
  "at_set xs idx vals = fold (\<lambda>(i, v) acc. acc[i := v]) (zip idx vals) xs"

text \<open>\<open>x.at[idx].add(vals)\<close>: accumulating scatter, out-of-bounds updates dropped.\<close>

definition at_add :: "'a::plus list \<Rightarrow> nat list \<Rightarrow> 'a list \<Rightarrow> 'a list" where
  "at_add xs idx vals =
     fold (\<lambda>(i, v) acc. if i < length acc then acc[i := acc ! i + v] else acc) (zip idx vals) xs"

text \<open>
  Modelled from the spec: \<open>argsort\<close> lives in \<open>jax/_src/numpy/sorting.py\<close>, which is not
  among the source files.  Its default is a stable sort: the indices of \<open>x\<close> ordered by
  value, ties in index order.
\<close>

definition argsort :: "'a::linorder list \<Rightarrow> nat list" where
  "argsort x = sort_key (\<lambda>i. x ! i) [0..<length x]"

subsection \<open>Insertion-point search\<close>

datatype side = Left | Right

datatype search_method = Scan | ScanUnrolled | Sort | CompareAll

text \<open>
  Modelled from the spec: \<open>lax._sort_lt_comparator\<close> and \<open>lax._sort_le_comparator\<close> are
  defined in \<open>jax/_src/lax/lax.py\<close>, not among the source files.  On a totally ordered
  element type (integers, floats without NaN) they are \<open><\<close> and \<open>\<le>\<close>.
\<close>

definition sort_lt_comparator :: "'a::linorder \<Rightarrow> 'a \<Rightarrow> bool" where
  "sort_lt_comparator x y = (x < y)"

definition sort_le_comparator :: "'a::linorder \<Rightarrow> 'a \<Rightarrow> bool" where
  "sort_le_comparator x y = (x \<le> y)"

text \<open>
  The index dtype is \<open>int32\<close> when the reference array has at most \<open>2^31 - 1\<close> elements
  and \<open>int64\<close> otherwise; \<open>index_bits\<close> is its width.
\<close>

definition index_bits :: "nat \<Rightarrow> nat" where
  "index_bits n = (if n \<le> 2 ^ 31 - 1 then 32 else 64)"

text \<open>
  One bisection step.  \<open>low\<close> and \<open>high\<close> are values of the signed index dtype that are
  never negative (they start at \<open>0\<close> and \<open>len(sorted_arr)\<close> and are only ever replaced by
  \<open>mid\<close>), so they are naturals here.  The midpoint is computed in the unsigned dtype of
  the same width: the casts and the addition wrap modulo \<open>2 ^ bits\<close>, and the halved sum is
  below \<open>2 ^ (bits - 1)\<close>, so the cast back to the signed dtype keeps its value.  Indexing
  \<open>sorted_arr[mid]\<close> clamps an out-of-range index to the last element.
\<close>

definition body_fun ::
  "nat \<Rightarrow> ('a \<Rightarrow> 'a \<Rightarrow> bool) \<Rightarrow> 'a list \<Rightarrow> 'a \<Rightarrow> nat \<times> nat \<Rightarrow> nat \<times> nat" where
  "body_fun bits op sorted_arr query state =
     (case state of (low, high) \<Rightarrow>
        let mid = ((low mod 2 ^ bits + high mod 2 ^ bits) mod 2 ^ bits) div 2;
            go_left = op query (sorted_arr ! min mid (length sorted_arr - 1))
        in (if go_left then low else mid, if go_left then mid else high))"

text \<open>\<open>int(np.ceil(np.log2(len(sorted_arr) + 1)))\<close>.\<close>

definition n_levels :: "'a list \<Rightarrow> nat" where
  "n_levels sorted_arr = ceillog2 (length sorted_arr + 1)"

text \<open>
  \<open>_searchsorted_via_scan\<close>, vectorised over the query elements.  The \<open>unrolled\<close> flag
  only sets the \<open>unroll\<close> factor of \<open>control_flow.scan\<close>, which runs the same \<open>n_levels\<close>
  steps either way.
\<close>

definition searchsorted_via_scan ::
  "bool \<Rightarrow> 'a::linorder list \<Rightarrow> 'a list \<Rightarrow> side \<Rightarrow> nat \<Rightarrow> int list" where
  "searchsorted_via_scan unrolled sorted_arr query sd bits =
     (let op = (if sd = Left then sort_le_comparator else sort_lt_comparator);
          init = (0, length sorted_arr)
      in map (\<lambda>q. int (snd ((body_fun bits op sorted_arr q ^^ n_levels sorted_arr) init)))
           query)"

text \<open>
  \<open>_rank\<close> inside \<open>_searchsorted_via_sort\<close>:
  \<open>zeros_like(idx).at[argsort(x)].set(idx)\<close> with \<open>idx = iota(len(x))\<close>.
\<close>

definition rank :: "'a::linorder list \<Rightarrow> int list" where
  "rank x = (let idx = map int [0..<length x]
             in at_set (replicate (length idx) 0) (argsort x) idx)"

text \<open>
  \<open>_searchsorted_via_sort\<close> on the flattened query; the final reshape to the query's
  shape does not move elements.
\<close>

definition searchsorted_via_sort ::
  "'a::linorder list \<Rightarrow> 'a list \<Rightarrow> side \<Rightarrow> int list" where
  "searchsorted_via_sort sorted_arr query sd =
     (let index = (if sd = Left then take (length query) (rank (query @ sorted_arr))
                   else drop (length sorted_arr) (rank (sorted_arr @ query)))
      in map2 (-) index (rank query))"

text \<open>
  \<open>_searchsorted_via_compare_all\<close>: the comparison matrix \<open>op(sorted_arr[j], query[i])\<close>
  summed over \<open>j\<close>.
\<close>

definition searchsorted_via_compare_all ::
  "'a::linorder list \<Rightarrow> 'a list \<Rightarrow> side \<Rightarrow> int list" where
  "searchsorted_via_compare_all sorted_arr query sd =
     (let op = (if sd = Left then sort_lt_comparator else sort_le_comparator)
      in map (\<lambda>q. \<Sum>a\<leftarrow>sorted_arr. (if op a q then 1 else 0)) query)"

text \<open>
  \<open>searchsorted\<close> without a \<open>sorter\<close>.  The arguments \<open>side\<close> and \<open>method\<close> are strings in
  the source and anything outside the two datatypes raises \<open>ValueError\<close> before any
  work is done; \<open>a\<close> is one-dimensional by its type.
\<close>

definition searchsorted :: "'a::linorder list \<Rightarrow> 'a list \<Rightarrow> side \<Rightarrow> search_method \<Rightarrow> int list" where
  "searchsorted a v sd m =
     (if length a = 0 then replicate (length v) 0
      else case m of
        Scan \<Rightarrow> searchsorted_via_scan False a v sd (index_bits (length a))
      | ScanUnrolled \<Rightarrow> searchsorted_via_scan True a v sd (index_bits (length a))
      | Sort \<Rightarrow> searchsorted_via_sort a v sd
      | CompareAll \<Rightarrow> searchsorted_via_compare_all a v sd)"

text \<open>The contract: the number of reference elements below (or not above) the query.\<close>

definition insertion_point :: "side \<Rightarrow> 'a::linorder list \<Rightarrow> 'a \<Rightarrow> nat" where
  "insertion_point sd r q =
     (case sd of Left \<Rightarrow> length (filter (\<lambda>x. x < q) r)
               | Right \<Rightarrow> length (filter (\<lambda>x. x \<le> q) r))"

subsection \<open>Dense arrays\<close>

text \<open>
  A dense array is its shape and its elements in row-major (C) order, the order in which
  \<open>ravel\<close> and \<open>reshape\<close> read them.  A well-formed array has as many elements as its
  shape says.
\<close>

record 'a ndarray =
  shape :: "nat list"
  data :: "'a list"

definition wf_array :: "'a ndarray \<Rightarrow> bool" where
  "wf_array a \<longleftrightarrow> length (data a) = prod_list (shape a)"

text \<open>\<open>np.ndindex(*shape)\<close>: every index tuple of a shape, in row-major order.\<close>

fun ndindex :: "nat list \<Rightarrow> nat list list" where
  "ndindex [] = [[]]"
| "ndindex (n # sh) = concat (map (\<lambda>i. map ((#) i) (ndindex sh)) [0..<n])"

text \<open>The row-major offset of an index tuple.\<close>

fun flat_index :: "nat list \<Rightarrow> nat list \<Rightarrow> nat" where
  "flat_index (n # sh) (i # ix) = i * prod_list sh + flat_index sh ix"
| "flat_index _ _ = 0"

definition valid_index :: "nat list \<Rightarrow> nat list \<Rightarrow> bool" where
  "valid_index sh ix \<longleftrightarrow> list_all2 (<) ix sh"

definition get :: "'a ndarray \<Rightarrow> nat list \<Rightarrow> 'a" where
  "get a ix = data a ! flat_index (shape a) ix"

text \<open>The array of a given shape whose element at \<open>ix\<close> is \<open>f ix\<close>.\<close>

definition tabulate :: "nat list \<Rightarrow> (nat list \<Rightarrow> 'a) \<Rightarrow> 'a ndarray" where
  "tabulate sh f = \<lparr>shape = sh, data = map f (ndindex sh)\<rparr>"

definition of_list :: "'a list \<Rightarrow> 'a ndarray" where
  "of_list xs = \<lparr>shape = [length xs], data = xs\<rparr>"

definition scalar :: "'a \<Rightarrow> 'a ndarray" where
  "scalar x = \<lparr>shape = [], data = [x]\<rparr>"

text \<open>
  \<open>reshape\<close> in C order keeps the element sequence; \<open>ravel\<close> is the reshape to
  \<open>(size,)\<close>.  The reshapes below keep the number of elements by construction.
\<close>

definition reshape :: "'a ndarray \<Rightarrow> nat list \<Rightarrow> 'a ndarray" where
  "reshape a sh = \<lparr>shape = sh, data = data a\<rparr>"

definition ravel :: "'a ndarray \<Rightarrow> 'a ndarray" where
  "ravel a = reshape a [prod_list (shape a)]"

text \<open>
  Modelled from the spec: \<open>lax.broadcast_in_dim(operand, shape, broadcast_dimensions)\<close>
  is defined in \<open>jax/_src/lax/lax.py\<close>, not among the source files.  Dimension \<open>k\<close> of the
  operand is laid along dimension \<open>broadcast_dimensions[k]\<close> of the result; an operand
  dimension of size 1 is stretched.
\<close>

definition broadcast_in_dim :: "'a ndarray \<Rightarrow> nat list \<Rightarrow> nat list \<Rightarrow> 'a ndarray" where
  "broadcast_in_dim operand sh broadcast_dimensions =
     tabulate sh (\<lambda>ix. get operand
       (map2 (\<lambda>d n. if n = 1 then 0 else ix ! d) broadcast_dimensions (shape operand)))"

subsection \<open>Repeat\<close>

text \<open>
  \<open>_repeat\<close> for a static scalar \<open>repeats\<close> and no \<open>total_repeat_length\<close>, which is how
  \<open>repeat(a, k)\<close> and the padding modes call it.  \<open>repeats\<close> is a natural number: a
  negative count is rejected by the broadcast.  An axis outside the array's dimensions
  raises \<open>ValueError\<close> in \<open>_canonicalize_axis\<close>.  A zero-dimensional \<open>a\<close> with an explicit
  axis skips the fast path and reaches \<open>full([total_repeat_length], arr)\<close>.
\<close>

definition repeat :: "'a ndarray \<Rightarrow> nat \<Rightarrow> nat option \<Rightarrow> error + 'a ndarray" where
  "repeat a repeats axis =
     (let arr = (case axis of None \<Rightarrow> ravel a | Some _ \<Rightarrow> a);
          axis = (case axis of None \<Rightarrow> 0 | Some ax \<Rightarrow> ax)
      in if length (shape arr) \<noteq> 0 then
           (let input_shape = shape arr in
            if length input_shape \<le> axis then Inl ValueError
            else
              let aux_axis = axis + 1;
                  aux_shape = take aux_axis input_shape @ [repeats] @ drop aux_axis input_shape;
                  arr = broadcast_in_dim arr aux_shape
                          (filter (\<lambda>i. i \<noteq> aux_axis) [0..<length aux_shape]);
                  result_shape = input_shape[axis := input_shape ! axis * repeats]
              in Inr (reshape arr result_shape))
         else Inr \<lparr>shape = [repeats], data = replicate repeats (get arr [])\<rparr>)"

subsection \<open>Diagonal fill\<close>

text \<open>\<open>diag_indices(n, ndim)\<close>: \<open>ndim\<close> copies of \<open>iota(n)\<close>.\<close>

definition diag_indices :: "nat \<Rightarrow> nat \<Rightarrow> nat list list" where
  "diag_indices n ndim = replicate ndim [0..<n]"

text \<open>
  \<open>_tile_to_size\<close> on a one-dimensional array.  \<open>tile(arr, reps)\<close> of a one-dimensional
  array is \<open>reps\<close> copies in a row.  \<open>size / arr.size\<close> divides Python numbers, so an
  empty \<open>arr\<close> with a positive \<open>size\<close> raises \<open>ZeroDivisionError\<close>.
\<close>

definition tile_to_size :: "'a list \<Rightarrow> nat \<Rightarrow> error + 'a list" where
  "tile_to_size arr sz =
     (if length arr < sz then
        (if length arr = 0 then Inl ZeroDivisionError
         else let arr = concat (replicate ((sz + length arr - 1) div length arr) arr)
              in Inr (if sz < length arr then take sz arr else arr))
      else Inr (if sz < length arr then take sz arr else arr))"

text \<open>
  \<open>a.at[idx].set(vals)\<close> for a tuple \<open>idx\<close> of equally long one-dimensional index
  arrays, one per dimension of \<open>a\<close>.
\<close>

definition at_set_nd :: "'a ndarray \<Rightarrow> nat list list \<Rightarrow> 'a list \<Rightarrow> 'a ndarray" where
  "at_set_nd a idx vals =
     a\<lparr>data := at_set (data a)
           (map (\<lambda>k. flat_index (shape a) (map (\<lambda>ix. ix ! k) idx)) [0..<length (hd idx)])
           vals\<rparr>"

text \<open>
  \<open>fill_diagonal(a, val, wrap, inplace)\<close>; the defaults are \<open>wrap=False\<close> and
  \<open>inplace=True\<close>.
\<close>

definition fill_diagonal ::
  "'a ndarray \<Rightarrow> 'a ndarray \<Rightarrow> bool \<Rightarrow> bool \<Rightarrow> error + 'a ndarray" where
  "fill_diagonal a val wrap inplace =
     (if inplace then Inl NotImplementedError
      else if wrap then Inl NotImplementedError
      else if length (shape a) < 2 then Inl ValueError
      else if 2 < length (shape a) \<and> \<not> list_all (\<lambda>n. n = shape a ! 0) (tl (shape a))
        then Inl ValueError
      else
        let n = Min (set (shape a));
            idx = diag_indices n (length (shape a))
        in if length (shape val) = 0 then Inr (at_set_nd a idx (replicate n (get val [])))
           else case tile_to_size (data (ravel val)) n of
                  Inl e \<Rightarrow> Inl e
                | Inr vals \<Rightarrow> Inr (at_set_nd a idx vals))"

definition fill_diagonal_default :: "'a ndarray \<Rightarrow> 'a ndarray \<Rightarrow> error + 'a ndarray" where
  "fill_diagonal_default a val = fill_diagonal a val False True"

subsection \<open>Insert and delete\<close>

text \<open>
  Modelled from the spec: \<open>reductions.cumsum\<close> (the fixed-length cumulative-sum
  operator the kernels consume) is defined in \<open>jax/_src/numpy/reductions.py\<close>, not among
  the source files.  It is the inclusive prefix sum.
\<close>

primrec cumsum_from :: "'a::monoid_add \<Rightarrow> 'a list \<Rightarrow> 'a list" where
  "cumsum_from s [] = []"
| "cumsum_from s (x # xs) = (s + x) # cumsum_from (s + x) xs"

definition cumsum :: "'a::monoid_add list \<Rightarrow> 'a list" where
  "cumsum xs = cumsum_from 0 xs"

text \<open>\<open>clip(arr, min, max)\<close>: \<open>minimum(max, maximum(min, arr))\<close>.\<close>

definition clip :: "int \<Rightarrow> int \<Rightarrow> int \<Rightarrow> int" where
  "clip x lo hi = min hi (max lo x)"

text \<open>
  \<open>bincount(x, length=length)\<close> without weights:
  \<open>zeros(length).at[clip(x, 0)].add(1, mode='drop')\<close>.
\<close>

definition bincount :: "int list \<Rightarrow> nat \<Rightarrow> int list" where
  "bincount x len =
     at_add (replicate len 0) (map (\<lambda>v. nat (max 0 v)) x) (replicate (length x) 1)"

text \<open>
  \<open>nonzero(mask, size=size)\<close> on a one-dimensional boolean array, without a
  \<open>fill_value\<close>; \<open>where(mask, size=size)[0]\<close> is the same call.  With \<open>size=None\<close> the
  size is the number of true entries.  The only stride of a one-dimensional array is 1.
\<close>

definition nonzero :: "bool list \<Rightarrow> nat option \<Rightarrow> int list" where
  "nonzero msk sz =
     (let calculated_size = (case sz of None \<Rightarrow> length (filter id msk) | Some k \<Rightarrow> k)
      in if length msk = 0 \<or> calculated_size = 0 then replicate calculated_size 0
         else
           let flat_indices =
                 cumsum (bincount (cumsum (map (\<lambda>b. if b then 1 else 0) msk)) calculated_size);
               stride = 1
           in map (\<lambda>f. (f div stride) mod int (length msk)) flat_indices)"

text \<open>
  Index arguments of \<open>insert\<close> and \<open>delete\<close>: a scalar integer, a one-dimensional integer
  array, or (for \<open>delete\<close>) a boolean mask.  Slice objects are not modelled.
\<close>

datatype index_obj = Index int | Indices "int list" | Mask "bool list"

text \<open>\<open>broadcast_shapes\<close> of two one-dimensional shapes.\<close>

definition broadcast_shapes :: "nat \<Rightarrow> nat \<Rightarrow> error + nat" where
  "broadcast_shapes m n =
     (if m = n then Inr m else if n = 1 then Inr m else if m = 1 then Inr n else Inl ValueError)"

text \<open>
  The insertion positions as \<open>insert\<close> normalises them: a negative position is shifted
  by the axis length, then every position is clipped into \<open>[0, n_input]\<close>.
\<close>

definition normalize_indices :: "int list \<Rightarrow> nat \<Rightarrow> int list" where
  "normalize_indices indices n_input =
     map (\<lambda>i. clip (if i < 0 then i + int n_input else i) 0 (int n_input)) indices"

text \<open>
  \<open>values_ind = indices.at[argsort(indices)].add(arange(n_insert))\<close>: where the
  inserted values land in the output.
\<close>

definition values_ind :: "int list \<Rightarrow> nat \<Rightarrow> int list" where
  "values_ind indices n_insert =
     at_add indices (argsort indices) (map int [0..<n_insert])"

text \<open>
  \<open>insert(arr, obj, values)\<close> for a one-dimensional \<open>arr\<close>, which is also the default
  \<open>axis=None\<close> call on the flattened array.  \<open>values\<close> is one-dimensional (a scalar
  becomes a one-element array by \<open>ndmin\<close>).  A boolean \<open>obj\<close> is not integer typed and
  raises \<open>ValueError\<close>.
\<close>

definition insert_indices :: "index_obj \<Rightarrow> nat \<Rightarrow> nat \<Rightarrow> error + int list" where
  "insert_indices obj n_values n_input =
     (case obj of
        Mask _ \<Rightarrow> Inl ValueError
      | Index i \<Rightarrow> Inr (normalize_indices (replicate n_values i) n_input)
      | Indices indices \<Rightarrow>
          Inr (normalize_indices
                 (if length indices = 1 then replicate n_values (indices ! 0) else indices)
                 n_input))"

definition insert :: "'a::zero list \<Rightarrow> index_obj \<Rightarrow> 'a list \<Rightarrow> error + 'a list" where
  "insert a obj values_arr =
     (let n_input = length a in
      case insert_indices obj (length values_arr) n_input of
        Inl e \<Rightarrow> Inl e
      | Inr indices \<Rightarrow>
         (case broadcast_shapes (length indices) (length values_arr) of
            Inl e \<Rightarrow> Inl e
          | Inr n_insert \<Rightarrow>
              let out = replicate (n_input + n_insert) 0;
                  vi = values_ind indices n_insert;
                  arr_mask = at_set (replicate (n_input + n_insert) True) (map nat vi)
                               (replicate (length vi) False);
                  arr_ind = nonzero arr_mask (Some n_input);
                  out = at_set out (map nat vi)
                          (if length values_arr = 1 then replicate (length vi) (values_arr ! 0)
                           else values_arr);
                  out = at_set out (map nat arr_ind) a
              in Inr out))"

text \<open>
  \<open>delete(arr, obj, assume_unique_indices)\<close> for a one-dimensional \<open>arr\<close>.  Case 1: a
  static integer, canonicalised against the axis length.  Case 3a: unique integer
  indices, deleted by a gather (an out-of-range gather index is clamped).  Case 3b:
  static integer indices through a NumPy mask, where NumPy wraps negative indices and
  raises \<open>IndexError\<close> out of range; or a boolean mask of the axis length.
\<close>

definition delete :: "'a list \<Rightarrow> index_obj \<Rightarrow> bool \<Rightarrow> error + 'a list" where
  "delete a obj assume_unique_indices =
     (let n = length a in
      case obj of
        Index i \<Rightarrow>
          if - int n \<le> i \<and> i < int n then
            (let obj = nat (if i < 0 then i + int n else i)
             in Inr (take obj a @ drop (obj + 1) a))
          else Inl ValueError
      | Indices ixs \<Rightarrow>
          if assume_unique_indices then
            (let obj = map (\<lambda>i. clip (if i < 0 then i + int n else i) 0 (int n)) ixs;
                 obj = sort obj;
                 obj = map2 (-) obj (map int [0..<length obj]);
                 i = map int [0..<n - length obj];
                 i = map (\<lambda>x. x + int (length (filter (\<lambda>d. d \<le> x) obj))) i
             in Inr (map (\<lambda>x. a ! min (nat x) (n - 1)) i))
          else if list_all (\<lambda>i. - int n \<le> i \<and> i < int n) ixs then
            (let msk = at_set (replicate n True)
                          (map (\<lambda>i. nat (if i < 0 then i + int n else i)) ixs)
                          (replicate (length ixs) False)
             in Inr (map fst (filter snd (zip a msk))))
          else Inl IndexError
      | Mask obj_array \<Rightarrow>
          if length obj_array \<noteq> n then Inl ValueError
          else Inr (map fst (filter snd (zip a (map Not obj_array)))))"

subsection \<open>Histogram\<close>






subsection \<open>Array primitives used by the padding engine\<close>

text \<open>
  Modelled from the spec: \<open>lax_slicing.slice_in_dim\<close>, \<open>lax.concatenate\<close>, \<open>lax.rev\<close> and
  \<open>lax.pad\<close> are defined in \<open>jax/_src/lax\<close>, not among the source files.  The
  definitions below follow their documented semantics.

  \<open>slice_in_dim(operand, start_index, limit_index, axis)\<close> with stride 1: a missing limit
  is the axis length, a negative index counts from the end, and the resulting static
  slice must satisfy \<open>0 \<le> start \<le> limit \<le> len\<close>, else the shape rule raises
  \<open>TypeError\<close>.
\<close>

definition slice_in_dim :: "'a ndarray \<Rightarrow> int \<Rightarrow> int option \<Rightarrow> nat \<Rightarrow> error + 'a ndarray" where
  "slice_in_dim operand start_index limit_index axis =
     (let len_axis = int (shape operand ! axis);
          start_index_int = start_index;
          limit_index_int = (case limit_index of None \<Rightarrow> len_axis | Some l \<Rightarrow> l);
          start_index_int =
            (if start_index_int < 0 then start_index_int + len_axis else start_index_int);
          limit_index_int =
            (if limit_index_int < 0 then limit_index_int + len_axis else limit_index_int)
      in if 0 \<le> start_index_int \<and> start_index_int \<le> limit_index_int
            \<and> limit_index_int \<le> len_axis
         then Inr (tabulate ((shape operand)[axis := nat (limit_index_int - start_index_int)])
                     (\<lambda>ix. get operand (ix[axis := ix ! axis + nat start_index_int])))
         else Inl TypeError)"

text \<open>
  The element of a concatenation along \<open>d\<close> at index \<open>ix\<close>: walk the operands, taking
  off each operand's extent along \<open>d\<close>.
\<close>

fun pick :: "'a ndarray list \<Rightarrow> nat \<Rightarrow> nat list \<Rightarrow> 'a" where
  "pick (p # ps) d ix =
     (if ix ! d < shape p ! d then get p ix else pick ps d (ix[d := ix ! d - shape p ! d]))"

text \<open>
  \<open>lax.concatenate(operands, dimension)\<close>: at least one operand (\<open>ValueError\<close>
  otherwise), all of one shape apart from \<open>dimension\<close> (\<open>TypeError\<close> otherwise).
\<close>

definition concatenate :: "'a ndarray list \<Rightarrow> nat \<Rightarrow> error + 'a ndarray" where
  "concatenate operands dimension =
     (case operands of
        [] \<Rightarrow> Inl ValueError
      | p # ps \<Rightarrow>
          if list_all (\<lambda>q. length (shape q) = length (shape p)
                          \<and> (shape q)[dimension := 0] = (shape p)[dimension := 0]) ps
          then Inr (tabulate
                      ((shape p)[dimension := sum_list (map (\<lambda>q. shape q ! dimension) operands)])
                      (pick operands dimension))
          else Inl TypeError)"

text \<open>\<open>flip(m, axis)\<close> for one axis, which is \<open>lax.rev(m, [axis])\<close>.\<close>

definition flip :: "'a ndarray \<Rightarrow> nat \<Rightarrow> 'a ndarray" where
  "flip m axis =
     tabulate (shape m) (\<lambda>ix. get m (ix[axis := shape m ! axis - 1 - ix ! axis]))"

text \<open>
  \<open>lax.pad(operand, padding_value, [(low, high, 0), ...])\<close> with non-negative edge
  padding and no interior padding, the only form the padding engine uses.
\<close>

definition lax_pad :: "'a ndarray \<Rightarrow> 'a \<Rightarrow> (nat \<times> nat) list \<Rightarrow> 'a ndarray" where
  "lax_pad operand padding_value widths =
     tabulate (map2 (\<lambda>n (low, high). low + n + high) (shape operand) widths)
       (\<lambda>ix. if list_all2 (\<lambda>j (n, (low, high)). low \<le> j \<and> j < low + n) ix
                   (zip (shape operand) widths)
              then get operand (map2 (\<lambda>j (low, high). j - low) ix widths)
              else padding_value)"

text \<open>\<open>empty_like(array, shape=shape)\<close>, which is \<open>zeros\<close> in JAX.\<close>

definition empty_like :: "'a::zero ndarray \<Rightarrow> nat list \<Rightarrow> 'a ndarray" where
  "empty_like array sh = tabulate sh (\<lambda>ix. 0)"

text \<open>\<open>x.squeeze(axis)\<close> of an array whose \<open>axis\<close> has length 1: the axis is removed.\<close>

definition squeeze :: "'a ndarray \<Rightarrow> nat \<Rightarrow> 'a ndarray" where
  "squeeze a axis = reshape a (take axis (shape a) @ drop (Suc axis) (shape a))"

text \<open>
  Modelled from the spec: \<open>array_creation.linspace(start, stop, num, endpoint=False,
  axis=axis)\<close> with a scalar \<open>start\<close> and an array \<open>stop\<close> (not among the source files):
  \<open>num\<close> evenly spaced values from \<open>start\<close> towards \<open>stop\<close>, \<open>stop\<close> excluded, laid along
  a new axis.
\<close>

definition linspace_axis ::
  "'a::linordered_field \<Rightarrow> 'a ndarray \<Rightarrow> nat \<Rightarrow> nat \<Rightarrow> 'a ndarray" where
  "linspace_axis start stop num axis =
     tabulate (take axis (shape stop) @ [num] @ drop axis (shape stop))
       (\<lambda>ix. start + (get stop (take axis ix @ drop (Suc axis) ix) - start)
                        * of_nat (ix ! axis) / of_nat num)"

text \<open>
  Modelled from the spec: the statistics \<open>amax\<close>, \<open>amin\<close>, \<open>mean\<close> and \<open>median\<close> of
  \<open>jax/_src/numpy/reductions.py\<close> (not among the source files), along one axis with
  \<open>keepdims=True\<close>.  \<open>amax\<close> and \<open>amin\<close> raise \<open>ValueError\<close> on a zero-length axis; the
  mean and the median of no values are NaN in JAX and \<open>0\<close> here.
\<close>

datatype stat_kind = Maximum | Minimum | Mean | Median

definition reduce_axis :: "('a list \<Rightarrow> 'a) \<Rightarrow> 'a ndarray \<Rightarrow> nat \<Rightarrow> 'a ndarray" where
  "reduce_axis f a axis =
     tabulate ((shape a)[axis := 1])
       (\<lambda>ix. f (map (\<lambda>j. get a (ix[axis := j])) [0..<shape a ! axis]))"

definition median_list :: "'a::linordered_field list \<Rightarrow> 'a" where
  "median_list xs =
     (let s = sort xs; n = length xs
      in if n = 0 then 0
         else if even n then (s ! (n div 2 - 1) + s ! (n div 2)) / 2
         else s ! (n div 2))"

definition stat_func :: "stat_kind \<Rightarrow> 'a::linordered_field ndarray \<Rightarrow> nat \<Rightarrow> error + 'a ndarray" where
  "stat_func kind a axis =
     (case kind of
        Maximum \<Rightarrow> if shape a ! axis = 0 then Inl ValueError
                   else Inr (reduce_axis (\<lambda>xs. Max (set xs)) a axis)
      | Minimum \<Rightarrow> if shape a ! axis = 0 then Inl ValueError
                   else Inr (reduce_axis (\<lambda>xs. Min (set xs)) a axis)
      | Mean \<Rightarrow> Inr (reduce_axis (\<lambda>xs. sum_list xs / of_nat (length xs)) a axis)
      | Median \<Rightarrow> Inr (reduce_axis median_list a axis))"

subsection \<open>Padding\<close>

text \<open>
  A width, statistic-length or value specification as the caller writes it: a scalar, a
  flat sequence, or a sequence of rows.
\<close>

datatype 'v pad_value = PScalar 'v | PVec "'v list" | PMat "'v list list"

text \<open>
  \<open>_broadcast_to_pairs(nvals, nd, name)\<close>.  Rows of different lengths are NumPy's
  inhomogeneous shape and raise \<open>TypeError\<close>; an empty sequence has shape \<open>(0,)\<close>.
\<close>

definition broadcast_to_pairs :: "'v pad_value \<Rightarrow> nat \<Rightarrow> error + ('v \<times> 'v) list" where
  "broadcast_to_pairs nvals nd =
     (case nvals of
        PMat rows \<Rightarrow>
          if rows = [] then Inl ValueError
          else if \<not> list_all (\<lambda>r. length r = length (hd rows)) rows then Inl TypeError
          else if length rows = nd \<and> length (hd rows) = 2
            then Inr (map (\<lambda>nval. (nval ! 0, nval ! 1)) rows)
          else if length rows = 1 \<and> length (hd rows) = 2
            then Inr (replicate nd (hd rows ! 0, hd rows ! 1))
          else Inl ValueError
      | PVec v \<Rightarrow>
          if length v = 2 then Inr (replicate nd (v ! 0, v ! 1))
          else if length v = 1 then Inr (replicate nd (v ! 0, v ! 0))
          else Inl ValueError
      | PScalar v \<Rightarrow> Inr (replicate nd (v, v)))"

text \<open>\<open>_check_no_padding(axis_padding, mode)\<close>.\<close>

definition check_no_padding :: "nat \<times> nat \<Rightarrow> error + unit" where
  "check_no_padding axis_padding =
     (if 0 < fst axis_padding \<or> 0 < snd axis_padding then Inl ValueError else Inr ())"

text \<open>The loop \<open>for i in range(np.ndim(array))\<close>, stopping at the first exception.\<close>

fun for_axes ::
  "(nat \<Rightarrow> 'a ndarray \<Rightarrow> error + 'a ndarray) \<Rightarrow> nat list \<Rightarrow> 'a ndarray \<Rightarrow> error + 'a ndarray" where
  "for_axes body [] array = Inr array"
| "for_axes body (i # axes) array =
     (case body i array of Inl e \<Rightarrow> Inl e | Inr array' \<Rightarrow> for_axes body axes array')"

text \<open>
  \<open>_pad_constant\<close>.  \<open>constant_values\<close> is a scalar, a flat sequence (of length 1 or 2,
  anything else raises \<open>ValueError\<close>), or rows that \<open>broadcast_to\<close> must bring to shape
  \<open>(nd, 2)\<close> (a failed broadcast raises \<open>ValueError\<close>).
\<close>

definition constant_rows :: "'a pad_value \<Rightarrow> nat \<Rightarrow> error + ('a \<times> 'a) list" where
  "constant_rows constant_values nd =
     (case constant_values of
        PScalar v \<Rightarrow> Inr (replicate nd (v, v))
      | PVec v \<Rightarrow> if length v = 2 then Inr (replicate nd (v ! 0, v ! 1)) else Inl ValueError
      | PMat rows \<Rightarrow>
          if rows = [] \<or> \<not> list_all (\<lambda>r. length r = length (hd rows)) rows then Inl ValueError
          else if (length rows = nd \<or> length rows = 1)
                  \<and> (length (hd rows) = 2 \<or> length (hd rows) = 1)
            then Inr (map (\<lambda>i. let r = (if length rows = 1 then hd rows else rows ! i)
                               in (r ! 0, if length r = 1 then r ! 0 else r ! 1)) [0..<nd])
          else Inl ValueError)"

text \<open>The body of the loop over the axes, for per-axis, per-side values.\<close>

definition pad_constant_axis ::
  "(nat \<times> nat) list \<Rightarrow> ('a \<times> 'a) list \<Rightarrow> nat \<Rightarrow> 'a ndarray \<Rightarrow> error + 'a ndarray" where
  "pad_constant_axis pad_width constant_values i array =
     (let nd = length (shape array);
          array = (if fst (pad_width ! i) \<noteq> 0
                   then lax_pad array (fst (constant_values ! i))
                          ((replicate nd (0, 0))[i := (fst (pad_width ! i), 0)])
                   else array);
          array = (if snd (pad_width ! i) \<noteq> 0
                   then lax_pad array (snd (constant_values ! i))
                          ((replicate nd (0, 0))[i := (0, snd (pad_width ! i))])
                   else array)
      in Inr array)"

definition pad_constant ::
  "'a ndarray \<Rightarrow> (nat \<times> nat) list \<Rightarrow> 'a pad_value \<Rightarrow> error + 'a ndarray" where
  "pad_constant array pad_width constant_values =
     (let nd = length (shape array) in
      case constant_values of
        PScalar v \<Rightarrow> Inr (lax_pad array v pad_width)
      | PVec [v] \<Rightarrow> Inr (lax_pad array v pad_width)
      | _ \<Rightarrow>
         (case constant_rows constant_values nd of
            Inl e \<Rightarrow> Inl e
          | Inr cv \<Rightarrow> for_axes (pad_constant_axis pad_width cv) [0..<nd] array))"

text \<open>\<open>_pad_wrap\<close>.\<close>

text \<open>The body of the loop over the axes.\<close>

definition pad_wrap_axis ::
  "(nat \<times> nat) list \<Rightarrow> nat \<Rightarrow> 'a ndarray \<Rightarrow> error + 'a ndarray" where
  "pad_wrap_axis pad_width i array =
     (if shape array ! i = 0 then
        (case check_no_padding (pad_width ! i) of Inl e \<Rightarrow> Inl e | Inr _ \<Rightarrow> Inr array)
      else
        let size = shape array ! i;
            left_repeats = fst (pad_width ! i) div size;
            left_remainder = fst (pad_width ! i) mod size;
            right_repeats = snd (pad_width ! i) div size;
            right_remainder = snd (pad_width ! i) mod size;
            total_repeats = left_repeats + right_repeats + 1
        in case (if 0 < left_remainder
                 then slice_in_dim array (int (size - left_remainder)) (Some (int size)) i
                 else Inr array) of
             Inl e \<Rightarrow> Inl e
           | Inr left_part \<Rightarrow>
              (case (if 0 < right_remainder
                     then slice_in_dim array 0 (Some (int right_remainder)) i
                     else Inr array) of
                 Inl e \<Rightarrow> Inl e
               | Inr right_part \<Rightarrow>
                   concatenate
                     ((if 0 < left_remainder then [left_part] else [])
                      @ replicate total_repeats array
                      @ (if 0 < right_remainder then [right_part] else [])) i))"

definition pad_wrap ::
  "'a ndarray \<Rightarrow> (nat \<times> nat) list \<Rightarrow> error + 'a ndarray" where
  "pad_wrap array pad_width =
     for_axes (pad_wrap_axis pad_width) [0..<length (shape array)] array"

text \<open>
  \<open>_pad_symmetric_or_reflect\<close>.  \<open>2 * edge - x\<close> broadcasts \<open>edge\<close>, which has length 1
  along the axis, against \<open>x\<close>.  Shapes are static here, so \<open>has_poly_dim\<close> is false.
\<close>

datatype reflect_mode = Symmetric | Reflect

datatype reflect_type = Even | Odd

definition odd_reflect :: "'a::comm_ring_1 ndarray \<Rightarrow> 'a ndarray \<Rightarrow> nat \<Rightarrow> 'a ndarray" where
  "odd_reflect edge x i = tabulate (shape x) (\<lambda>ix. 2 * get edge (ix[i := 0]) - get x ix)"

text \<open>
  One round of the \<open>while padding > 0\<close> loop of \<open>build_padding\<close>, for a chunk of
  \<open>curr_pad\<close> elements: the new array and the new \<open>edge\<close>.
\<close>

definition build_padding_step ::
  "reflect_mode \<Rightarrow> reflect_type \<Rightarrow> nat \<Rightarrow> nat \<Rightarrow> nat \<Rightarrow> bool \<Rightarrow> nat
     \<Rightarrow> 'a::comm_ring_1 ndarray \<Rightarrow> 'a ndarray \<Rightarrow> error + ('a ndarray \<times> 'a ndarray)" where
  "build_padding_step mode rtype i axis_size offset is_before curr_pad edge array =
     (case (if is_before
            then slice_in_dim array (int offset) (Some (int (offset + curr_pad))) i
            else slice_in_dim array (- int (curr_pad + offset))
                   (if mode = Symmetric \<or> axis_size = 1 then None else Some (- 1)) i) of
        Inl e \<Rightarrow> Inl e
      | Inr x \<Rightarrow>
         (let x = flip x i in
          case (if rtype = Odd then
                  (let x = odd_reflect edge x i in
                   if 1 < axis_size then
                     (case (if is_before then slice_in_dim x 0 (Some 1) i
                            else slice_in_dim x (- 1) None i) of
                        Inl e \<Rightarrow> Inl e
                      | Inr edge \<Rightarrow> Inr (x, edge))
                   else Inr (x, edge))
                else Inr (x, edge)) of
            Inl e \<Rightarrow> Inl e
          | Inr (x, edge) \<Rightarrow>
             (case (if is_before then concatenate [x, array] i else concatenate [array, x] i) of
                Inl e \<Rightarrow> Inl e
              | Inr array \<Rightarrow> Inr (array, edge))))"

text \<open>
  The loop itself.  It is only entered for an axis of positive length, where
  \<open>axis_size - offset \<ge> 1\<close> and every round consumes at least one element of padding;
  the second conjunct of the guard states that, and makes the recursion total.
\<close>

function build_padding_loop ::
  "reflect_mode \<Rightarrow> reflect_type \<Rightarrow> nat \<Rightarrow> nat \<Rightarrow> nat \<Rightarrow> bool
     \<Rightarrow> 'a::comm_ring_1 ndarray \<Rightarrow> 'a ndarray \<Rightarrow> nat \<Rightarrow> error + 'a ndarray" where
  "build_padding_loop mode rtype i axis_size offset is_before edge array padding =
     (if 0 < padding \<and> 0 < axis_size - offset then
        (let curr_pad = min padding (axis_size - offset);
             padding = padding - curr_pad
         in case build_padding_step mode rtype i axis_size offset is_before curr_pad edge array of
              Inl e \<Rightarrow> Inl e
            | Inr (array, edge) \<Rightarrow>
                build_padding_loop mode rtype i axis_size offset is_before edge array padding)
      else Inr array)"
  by pat_completeness auto
termination
  by (relation "measure (\<lambda>(mode, rtype, i, axis_size, offset, is_before, edge, array, padding). padding)")
     auto

definition build_padding ::
  "reflect_mode \<Rightarrow> reflect_type \<Rightarrow> nat \<Rightarrow> nat \<Rightarrow> 'a::comm_ring_1 ndarray \<Rightarrow> nat \<Rightarrow> bool
     \<Rightarrow> error + 'a ndarray" where
  "build_padding mode rtype i axis_size array padding is_before =
     (case (if is_before then slice_in_dim array 0 (Some 1) i
            else slice_in_dim array (- 1) None i) of
        Inl e \<Rightarrow> Inl e
      | Inr edge \<Rightarrow>
          let offset = (if mode = Reflect \<and> 1 < axis_size then 1 else 0)
          in build_padding_loop mode rtype i axis_size offset is_before edge array padding)"

text \<open>The body of the loop over the axes.\<close>

definition pad_symmetric_or_reflect_axis ::
  "(nat \<times> nat) list \<Rightarrow> reflect_mode \<Rightarrow> reflect_type \<Rightarrow> nat \<Rightarrow> 'a::comm_ring_1 ndarray
     \<Rightarrow> error + 'a ndarray" where
  "pad_symmetric_or_reflect_axis pad_width mode rtype i array =
     (if shape array ! i = 0 then
        (case check_no_padding (pad_width ! i) of Inl e \<Rightarrow> Inl e | Inr _ \<Rightarrow> Inr array)
      else
        let axis_size = shape array ! i
        in case build_padding mode rtype i axis_size array (fst (pad_width ! i)) True of
             Inl e \<Rightarrow> Inl e
           | Inr array \<Rightarrow>
               build_padding mode rtype i axis_size array (snd (pad_width ! i)) False)"

definition pad_symmetric_or_reflect ::
  "'a::comm_ring_1 ndarray \<Rightarrow> (nat \<times> nat) list \<Rightarrow> reflect_mode \<Rightarrow> reflect_type
     \<Rightarrow> error + 'a ndarray" where
  "pad_symmetric_or_reflect array pad_width mode rtype =
     for_axes (pad_symmetric_or_reflect_axis pad_width mode rtype)
       [0..<length (shape array)] array"

text \<open>\<open>_pad_edge\<close>.\<close>

text \<open>The body of the loop over the axes.\<close>

definition pad_edge_axis ::
  "(nat \<times> nat) list \<Rightarrow> nat \<Rightarrow> 'a ndarray \<Rightarrow> error + 'a ndarray" where
  "pad_edge_axis pad_width i array =
     (if shape array ! i = 0 then
        (case check_no_padding (pad_width ! i) of Inl e \<Rightarrow> Inl e | Inr _ \<Rightarrow> Inr array)
      else
        let n = shape array ! i;
            npad_before = fst (pad_width ! i);
            npad_after = snd (pad_width ! i)
        in case slice_in_dim array 0 (Some 1) i of
             Inl e \<Rightarrow> Inl e
           | Inr edge_before \<Rightarrow>
          (case repeat edge_before npad_before (Some i) of
             Inl e \<Rightarrow> Inl e
           | Inr pad_before \<Rightarrow>
          (case slice_in_dim array (int n - 1) (Some (int n)) i of
             Inl e \<Rightarrow> Inl e
           | Inr edge_after \<Rightarrow>
          (case repeat edge_after npad_after (Some i) of
             Inl e \<Rightarrow> Inl e
           | Inr pad_after \<Rightarrow> concatenate [pad_before, array, pad_after] i))))"

definition pad_edge ::
  "'a ndarray \<Rightarrow> (nat \<times> nat) list \<Rightarrow> error + 'a ndarray" where
  "pad_edge array pad_width =
     for_axes (pad_edge_axis pad_width) [0..<length (shape array)] array"

text \<open>\<open>_pad_linear_ramp\<close>; \<open>end_values\<close> is already a list of pairs.\<close>

text \<open>The body of the loop over the axes.\<close>

definition pad_linear_ramp_axis ::
  "(nat \<times> nat) list \<Rightarrow> ('a \<times> 'a) list \<Rightarrow> nat \<Rightarrow> 'a::linordered_field ndarray \<Rightarrow> error + 'a ndarray" where
  "pad_linear_ramp_axis pad_width end_values axis array =
     (case slice_in_dim array 0 (Some 1) axis of
        Inl e \<Rightarrow> Inl e
      | Inr edge_before \<Rightarrow>
     (case slice_in_dim array (- 1) None axis of
        Inl e \<Rightarrow> Inl e
      | Inr edge_after \<Rightarrow>
          let ramp_before = linspace_axis (fst (end_values ! axis)) (squeeze edge_before axis)
                              (fst (pad_width ! axis)) axis;
              ramp_after = linspace_axis (snd (end_values ! axis)) (squeeze edge_after axis)
                             (snd (pad_width ! axis)) axis;
              ramp_after = flip ramp_after axis
          in concatenate [ramp_before, array, ramp_after] axis))"

definition pad_linear_ramp ::
  "'a::linordered_field ndarray \<Rightarrow> (nat \<times> nat) list \<Rightarrow> ('a \<times> 'a) list \<Rightarrow> error + 'a ndarray" where
  "pad_linear_ramp array pad_width end_values =
     for_axes (pad_linear_ramp_axis pad_width end_values) [0..<length (shape array)] array"

text \<open>
  \<open>_pad_stats\<close>; \<open>stat_length\<close> is \<open>None\<close> or already a list of pairs.  The rounding of
  the statistic for integer dtypes does not apply to the inexact element type.
\<close>

text \<open>The body of the loop over the axes.\<close>

definition pad_stats_axis ::
  "(nat \<times> nat) list \<Rightarrow> (int \<times> int) list option \<Rightarrow> stat_kind \<Rightarrow> nat \<Rightarrow> 'a::linordered_field ndarray \<Rightarrow> error + 'a ndarray" where
  "pad_stats_axis pad_width stat_length kind i array =
     (case (case stat_length of
              None \<Rightarrow>
                (case stat_func kind array i of
                   Inl e \<Rightarrow> Inl e
                 | Inr stat_before \<Rightarrow> Inr (stat_before, stat_before))
            | Some sl \<Rightarrow>
                let array_length = int (shape array ! i);
                    length_before = fst (sl ! i);
                    length_after = snd (sl ! i)
                in if length_before = 0 \<or> length_after = 0 then Inl ValueError
                   else
                     let length_before = min length_before array_length;
                         length_after = min length_after array_length
                     in case slice_in_dim array 0 (Some length_before) i of
                          Inl e \<Rightarrow> Inl e
                        | Inr slice_before \<Rightarrow>
                       (case slice_in_dim array (- length_after) None i of
                          Inl e \<Rightarrow> Inl e
                        | Inr slice_after \<Rightarrow>
                       (case stat_func kind slice_before i of
                          Inl e \<Rightarrow> Inl e
                        | Inr stat_before \<Rightarrow>
                       (case stat_func kind slice_after i of
                          Inl e \<Rightarrow> Inl e
                        | Inr stat_after \<Rightarrow> Inr (stat_before, stat_after))))) of
        Inl e \<Rightarrow> Inl e
      | Inr (stat_before, stat_after) \<Rightarrow>
         (case repeat stat_before (fst (pad_width ! i)) (Some i) of
            Inl e \<Rightarrow> Inl e
          | Inr pad_before \<Rightarrow>
         (case repeat stat_after (snd (pad_width ! i)) (Some i) of
            Inl e \<Rightarrow> Inl e
          | Inr pad_after \<Rightarrow> concatenate [pad_before, array, pad_after] i)))"

definition pad_stats ::
  "'a::linordered_field ndarray \<Rightarrow> (nat \<times> nat) list \<Rightarrow> (int \<times> int) list option \<Rightarrow> stat_kind \<Rightarrow> error + 'a ndarray" where
  "pad_stats array pad_width stat_length kind =
     for_axes (pad_stats_axis pad_width stat_length kind) [0..<length (shape array)] array"

text \<open>\<open>_pad_empty\<close>.\<close>

text \<open>The body of the loop over the axes.\<close>

definition pad_empty_axis ::
  "(nat \<times> nat) list \<Rightarrow> nat \<Rightarrow> 'a::zero ndarray \<Rightarrow> error + 'a ndarray" where
  "pad_empty_axis pad_width i array =
     (let shape_before = (shape array)[i := fst (pad_width ! i)];
          pad_before = empty_like array shape_before;
          shape_after = (shape array)[i := snd (pad_width ! i)];
          pad_after = empty_like array shape_after
      in concatenate [pad_before, array, pad_after] i)"

definition pad_empty ::
  "'a::zero ndarray \<Rightarrow> (nat \<times> nat) list \<Rightarrow> error + 'a ndarray" where
  "pad_empty array pad_width =
     for_axes (pad_empty_axis pad_width) [0..<length (shape array)] array"

text \<open>
  The padding modes with their keyword arguments.  A mode name outside this list raises
  \<open>NotImplementedError\<close> in \<open>pad\<close>, and so does a keyword a mode does not take
  (\<open>ValueError\<close>); neither can be written here.  Callable modes are not modelled.
\<close>

datatype 'a pad_mode =
    Constant "'a pad_value"
  | Wrap
  | Mirror reflect_mode reflect_type
  | Edge
  | LinearRamp "'a pad_value"
  | Stat stat_kind "int pad_value option"
  | Empty

text \<open>
  \<open>_pad(array, pad_width, mode, constant_values, stat_length, end_values,
  reflect_type)\<close>.  A zero-dimensional array is returned as it is.  The widths are
  normalised to one pair per axis and must not be negative.
\<close>

definition pad_core ::
  "'a::linordered_field ndarray \<Rightarrow> int pad_value \<Rightarrow> 'a pad_mode \<Rightarrow> error + 'a ndarray" where
  "pad_core array pad_width mode =
     (let nd = length (shape array) in
      if nd = 0 then Inr array
      else
        case broadcast_to_pairs pad_width nd of
          Inl e \<Rightarrow> Inl e
        | Inr pad_width \<Rightarrow>
            if list_ex (\<lambda>(lo, hi). lo < 0 \<or> hi < 0) pad_width then Inl ValueError
            else
              let pad_width = map (\<lambda>(lo, hi). (nat lo, nat hi)) pad_width
              in case mode of
                   Constant constant_values \<Rightarrow> pad_constant array pad_width constant_values
                 | Wrap \<Rightarrow> pad_wrap array pad_width
                 | Mirror m reflect_type \<Rightarrow> pad_symmetric_or_reflect array pad_width m reflect_type
                 | Edge \<Rightarrow> pad_edge array pad_width
                 | LinearRamp end_values \<Rightarrow>
                     (case broadcast_to_pairs end_values nd of
                        Inl e \<Rightarrow> Inl e
                      | Inr end_values \<Rightarrow> pad_linear_ramp array pad_width end_values)
                 | Stat kind stat_length \<Rightarrow>
                     (case (case stat_length of
                              None \<Rightarrow> Inr None
                            | Some sl \<Rightarrow>
                                (case broadcast_to_pairs sl nd of
                                   Inl e \<Rightarrow> Inl e
                                 | Inr sl \<Rightarrow> Inr (Some sl))) of
                        Inl e \<Rightarrow> Inl e
                      | Inr stat_length \<Rightarrow> pad_stats array pad_width stat_length kind)
                 | Empty \<Rightarrow> pad_empty array pad_width)"

text \<open>
  \<open>pad(array, pad_width, mode, **kwargs)\<close>: the widths are normalised once here and
  once more in \<open>_pad\<close>.
\<close>

definition pad ::
  "'a::linordered_field ndarray \<Rightarrow> int pad_value \<Rightarrow> 'a pad_mode \<Rightarrow> error + 'a ndarray" where
  "pad array pad_width mode =
     (case broadcast_to_pairs pad_width (length (shape array)) of
        Inl e \<Rightarrow> Inl e
      | Inr pw \<Rightarrow>
          if length (shape array) = 0 then Inr array
          else pad_core array (PMat (map (\<lambda>(lo, hi). [lo, hi]) pw)) mode)"

text \<open>
  Bisection towards a known boundary \<open>t\<close>: the specification that a step of
  \<open>body_fun\<close> is compared with.
\<close>

definition bisect :: "nat \<Rightarrow> nat \<times> nat \<Rightarrow> nat \<times> nat" where
  "bisect t s = (case s of (low, high) \<Rightarrow>
     let mid = (low + high) div 2 in if t \<le> mid then (low, mid) else (mid, high))"

text \<open>
  The elements that a stable sort places before position \<open>i\<close>: smaller ones, and equal
  ones with a smaller index.
\<close>

definition before_in_rank :: "'a::linorder list \<Rightarrow> nat \<Rightarrow> nat \<Rightarrow> bool" where
  "before_in_rank x i j \<longleftrightarrow> x ! j < x ! i \<or> (x ! j = x ! i \<and> j < i)"

(*DEFS-END*)

section \<open>Properties\<close>

subsection \<open>Scatter\<close>

lemma at_set_length: "length (at_set xs idx vals) = length xs"
proof -
  have "length (fold (\<lambda>(i, v) acc. acc[i := v]) ps xs) = length xs" for ps :: "(nat \<times> 'a) list"
    by (induction ps arbitrary: xs) (auto split: prod.splits)
  then show ?thesis by (simp add: at_set_def)
qed

lemma at_set_Cons: "at_set xs (i # idx) (v # vals) = at_set (xs[i := v]) idx vals"
  by (simp add: at_set_def)

lemma at_set_Nil: "at_set xs [] vals = xs"
  by (simp add: at_set_def)

lemma at_set_nth_other:
  "j \<notin> set idx \<Longrightarrow> at_set xs idx vals ! j = xs ! j"
proof (induction idx arbitrary: xs vals)
  case Nil
  then show ?case by (simp add: at_set_Nil)
next
  case (Cons i idx)
  show ?case
  proof (cases vals)
    case Nil
    then show ?thesis by (simp add: at_set_def)
  next
    case (Cons v vs)
    with Cons.prems Cons.IH[of "xs[i := v]" vs] show ?thesis 
      by (simp add: at_set_Cons)
  qed
qed

lemma at_set_nth:
  "distinct idx \<Longrightarrow> length idx = length vals \<Longrightarrow> k < length idx \<Longrightarrow> idx ! k < length xs
   \<Longrightarrow> at_set xs idx vals ! (idx ! k) = vals ! k"
proof (induction idx arbitrary: xs vals k)
  case Nil
  then show ?case by simp
next
  case (Cons i idx)
  then obtain v vs where vals: "vals = v # vs" by (cases vals) auto
  show ?case
  proof (cases k)
    case 0
    with Cons.prems vals show ?thesis
      by (simp add: at_set_Cons at_set_nth_other)
  next
    case (Suc k')
    with Cons.prems vals Cons.IH[of vs k' "xs[i := v]"] show ?thesis
      by (simp add: at_set_Cons)
  qed
qed

subsection \<open>Bisection\<close>

lemma bisect_zero_step: "bisect 0 (0, h) = (0, h div 2)"
  by (simp add: bisect_def)

lemma bisect_zero: "(bisect 0 ^^ k) (0, n) = (0, n div 2 ^ k)"
proof (induction k)
  case 0
  then show ?case by simp
next
  case (Suc k)
  have "n div 2 ^ k div 2 = n div 2 ^ Suc k"
    by (simp add: div_mult2_eq[symmetric] mult.commute)
  with Suc show ?case by (simp add: bisect_zero_step)
qed

lemma bisect_pos_inv:
  assumes "0 < t" "t \<le> n"
  shows "case (bisect t ^^ k) (0, n) of (low, high) \<Rightarrow>
           low < t \<and> t \<le> high \<and> high \<le> n \<and> (high - low - 1) * 2 ^ k \<le> n - 1"
proof (induction k)
  case 0
  with assms show ?case by simp
next
  case (Suc k)
  obtain l h where s: "(bisect t ^^ k) (0, n) = (l, h)" by (cases "(bisect t ^^ k) (0, n)")
  with Suc have inv: "l < t" "t \<le> h" "h \<le> n" "(h - l - 1) * 2 ^ k \<le> n - 1" by auto
  have a: "(((l + h) div 2) - l - 1) * 2 \<le> h - l - 1" using inv by linarith
  have b: "(h - ((l + h) div 2) - 1) * 2 \<le> h - l - 1" using inv by linarith
  have c: "x * 2 ^ Suc k \<le> n - 1" if "x * 2 \<le> h - l - 1" for x
  proof -
    from that have "x * 2 * 2 ^ k \<le> (h - l - 1) * 2 ^ k" by (rule mult_le_mono1)
    then have "x * 2 * 2 ^ k \<le> n - 1" using inv(4) by (rule le_trans)
    moreover have "x * 2 ^ Suc k = x * 2 * 2 ^ k" by simp
    ultimately show ?thesis by metis
  qed
  have step: "(bisect t ^^ Suc k) (0, n) = bisect t (l, h)" using s by simp
  show ?case
  proof (cases "t \<le> (l + h) div 2")
    case True
    then have "bisect t (l, h) = (l, (l + h) div 2)" by (simp add: bisect_def)
    moreover have "(l + h) div 2 \<le> n" using inv by linarith
    ultimately show ?thesis using step inv True c[OF a] by simp
  next
    case False
    then have "bisect t (l, h) = ((l + h) div 2, h)" by (simp add: bisect_def)
    then show ?thesis using step inv False c[OF b] by simp
  qed
qed

lemma bisect_correct:
  assumes "t \<le> n" "n < 2 ^ k"
  shows "snd ((bisect t ^^ k) (0, n)) = t"
proof (cases "t = 0")
  case True
  with assms bisect_zero[of k n] show ?thesis by simp
next
  case False
  obtain l h where s: "(bisect t ^^ k) (0, n) = (l, h)" by (cases "(bisect t ^^ k) (0, n)")
  with bisect_pos_inv[of t n k] assms False
  have inv: "l < t" "t \<le> h" "h \<le> n" "(h - l - 1) * 2 ^ k \<le> n - 1" by auto
  have "h - l - 1 = 0"
  proof (rule ccontr)
    assume "h - l - 1 \<noteq> 0"
    then have "1 \<le> h - l - 1" by simp
    then have "1 * 2 ^ k \<le> (h - l - 1) * 2 ^ k" by (rule mult_le_mono1)
    then have "1 * 2 ^ k \<le> n - 1" using inv(4) by (rule le_trans)
    with assms show False by simp
  qed
  with inv s show ?thesis by simp
qed

lemma sorted_filter_le_iff:
  assumes "sorted a" "mid < length a" and down: "\<And>x y. x \<le> y \<Longrightarrow> P y \<Longrightarrow> P x"
  shows "(\<not> P (a ! mid)) \<longleftrightarrow> length (filter P a) \<le> mid"
proof -
  have split: "a = take mid a @ a ! mid # drop (Suc mid) a"
    using assms(2) by (rule id_take_nth_drop)
  have srt: "sorted (take mid a @ a ! mid # drop (Suc mid) a)"
    using assms(1) split by simp
  have before: "\<forall>x \<in> set (take mid a). x \<le> a ! mid"
    using srt by (auto simp: sorted_append)
  have after: "\<forall>x \<in> set (drop (Suc mid) a). a ! mid \<le> x"
    using srt by (auto simp: sorted_append)
  have len: "length (filter P a) =
      length (filter P (take mid a)) + (if P (a ! mid) then 1 else 0)
      + length (filter P (drop (Suc mid) a))"
    by (subst split) simp
  show ?thesis
  proof (cases "P (a ! mid)")
    case True
    then have "\<forall>x \<in> set (take mid a). P x" using before down by blast
    then have "filter P (take mid a) = take mid a" by simp
    then have "length (filter P (take mid a)) = mid" using assms(2) by simp
    with len True show ?thesis by simp
  next
    case False
    then have "\<forall>x \<in> set (drop (Suc mid) a). \<not> P x" using after down by blast
    then have "filter P (drop (Suc mid) a) = []" by simp
    moreover have "length (filter P (take mid a)) \<le> mid"
      using length_filter_le[of P "take mid a"] by simp
    ultimately show ?thesis using len False by simp
  qed
qed

lemma go_left_iff:
  assumes "sorted a" "mid < length a"
  shows "(if sd = Left then sort_le_comparator else sort_lt_comparator) q (a ! mid)
         \<longleftrightarrow> insertion_point sd a q \<le> mid"
proof (cases sd)
  case Left
  have "(\<not> (a ! mid < q)) \<longleftrightarrow> length (filter (\<lambda>x. x < q) a) \<le> mid"
    using assms by (rule sorted_filter_le_iff) auto
  with Left show ?thesis by (simp add: sort_le_comparator_def insertion_point_def not_less)
next
  case Right
  have "(\<not> (a ! mid \<le> q)) \<longleftrightarrow> length (filter (\<lambda>x. x \<le> q) a) \<le> mid"
    using assms by (rule sorted_filter_le_iff) auto
  with Right show ?thesis by (simp add: sort_lt_comparator_def insertion_point_def not_le)
qed

lemma insertion_point_le: "insertion_point sd a q \<le> length a"
  by (cases sd) (simp_all add: insertion_point_def)

lemma body_fun_bisect:
  assumes "sorted a" "low \<le> high" "high \<le> length a" "2 * length a < 2 ^ bits"
  shows "body_fun bits (if sd = Left then sort_le_comparator else sort_lt_comparator) a q (low, high)
         = bisect (insertion_point sd a q) (low, high)"
proof -
  let ?n = "length a"
  let ?op = "if sd = Left then sort_le_comparator else sort_lt_comparator"
  let ?m = "(low + high) div 2"
  have lo: "low mod 2 ^ bits = low" and hi: "high mod 2 ^ bits = high"
    using assms by simp_all
  have sum: "(low + high) mod 2 ^ bits = low + high" using assms by simp
  have mid: "((low mod 2 ^ bits + high mod 2 ^ bits) mod 2 ^ bits) div 2 = ?m"
    by (simp only: lo hi sum)
  have bf: "body_fun bits ?op a q (low, high) =
     (if ?op q (a ! min ?m (?n - 1)) then (low, ?m) else (?m, high))"
    unfolding body_fun_def prod.case mid Let_def by simp
  have bs: "bisect (insertion_point sd a q) (low, high) =
     (if insertion_point sd a q \<le> ?m then (low, ?m) else (?m, high))"
    by (simp add: bisect_def Let_def)
  show ?thesis
  proof (cases "?m < ?n")
    case True
    then have "min ?m (?n - 1) = ?m" by simp
    then show ?thesis
      using go_left_iff[OF assms(1) True, of sd q] by (simp only: bf bs)
  next
    case False
    then have eq: "low = ?n" "high = ?n" using assms by linarith+
    then have m: "?m = ?n" by simp
    have "insertion_point sd a q \<le> ?n" by (rule insertion_point_le)
    then show ?thesis unfolding bf bs m using eq by simp
  qed
qed

lemma bisect_bounds:
  "low \<le> high \<Longrightarrow> high \<le> n \<Longrightarrow> bisect t (low, high) = (l', h') \<Longrightarrow> l' \<le> h' \<and> h' \<le> n"
  by (auto simp: bisect_def Let_def split: if_splits)

lemma body_fun_funpow:
  assumes "sorted a" "2 * length a < 2 ^ bits"
  shows "low \<le> high \<Longrightarrow> high \<le> length a \<Longrightarrow>
     (body_fun bits (if sd = Left then sort_le_comparator else sort_lt_comparator) a q ^^ k) (low, high)
     = (bisect (insertion_point sd a q) ^^ k) (low, high)"
proof (induction k arbitrary: low high)
  case 0
  then show ?case by simp
next
  case (Suc k)
  obtain l' h' where s: "bisect (insertion_point sd a q) (low, high) = (l', h')"
    by (cases "bisect (insertion_point sd a q) (low, high)")
  with bisect_bounds[OF Suc.prems s] Suc.IH[of l' h']
    body_fun_bisect[OF assms(1) Suc.prems assms(2), of sd q]
  show ?case by (simp add: funpow_swap1)
qed

lemma index_bits_bound: "n < 2 ^ 63 \<Longrightarrow> 2 * n < 2 ^ index_bits n"
  by (simp add: index_bits_def)

lemma n_levels_bound: "length a < 2 ^ n_levels a"
  using le_two_power_ceillog2[of "length a + 1"] by (simp add: n_levels_def)

lemma searchsorted_via_scan_correct:
  assumes "sorted a" "length a < 2 ^ 63"
  shows "searchsorted_via_scan u a v sd (index_bits (length a))
         = map (\<lambda>q. int (insertion_point sd a q)) v"
proof -
  have "snd ((body_fun (index_bits (length a))
           (if sd = Left then sort_le_comparator else sort_lt_comparator) a q ^^ n_levels a)
           (0, length a)) = insertion_point sd a q" for q
    using body_fun_funpow[OF assms(1) index_bits_bound[OF assms(2)],
        where low = 0 and high = "length a" and sd = sd and q = q and k = "n_levels a"]
      bisect_correct[of "insertion_point sd a q" "length a" "n_levels a"]
      insertion_point_le[of sd a q] n_levels_bound[of a]
    by simp
  then show ?thesis by (simp add: searchsorted_via_scan_def Let_def)
qed

lemma searchsorted_via_compare_all_correct:
  "searchsorted_via_compare_all a v sd = map (\<lambda>q. int (insertion_point sd a q)) v"
proof -
  have "(\<Sum>x\<leftarrow>a. (if P x then 1 else 0)) = int (length (filter P a))" for P :: "'a \<Rightarrow> bool"
    by (induction a) simp_all
  then show ?thesis
    by (cases sd) (simp_all add: searchsorted_via_compare_all_def insertion_point_def
        sort_lt_comparator_def sort_le_comparator_def)
qed

subsection \<open>Rank sort\<close>

lemma stable_sort_position:
  fixes f :: "nat \<Rightarrow> 'a::linorder"
  assumes srt: "sorted_wrt (<) xs" and k: "k < length xs"
  shows "k = length (filter (\<lambda>j. f j < f (sort_key f xs ! k) \<or>
                (f j = f (sort_key f xs ! k) \<and> j < sort_key f xs ! k)) xs)"
proof -
  let ?p = "sort_key f xs"
  let ?i = "?p ! k"
  let ?key = "\<lambda>j. f j < f ?i \<or> (f j = f ?i \<and> j < ?i)"
  let ?E = "\<lambda>y. f y = f ?i"
  have dxs: "distinct xs" using srt by (simp add: strict_sorted_iff)
  have kp: "k < length ?p" using k by simp
  have split: "?p = take k ?p @ ?i # drop (Suc k) ?p"
    using kp by (rule id_take_nth_drop)
  have dp: "distinct (take k ?p @ ?i # drop (Suc k) ?p)"
    using dxs split by (metis distinct_sort)
  have sp: "sorted (map f (take k ?p @ ?i # drop (Suc k) ?p))"
    using split by (metis sorted_sort_key)
  have "sorted_wrt (<) (filter ?E ?p)"
    unfolding sort_key_stable using srt by (rule sorted_wrt_filter)
  then have "sorted_wrt (<) (filter ?E (take k ?p @ ?i # drop (Suc k) ?p))"
    using split by simp
  then have st: "sorted_wrt (<) (filter ?E (take k ?p) @ ?i # filter ?E (drop (Suc k) ?p))"
    by simp
  have before_le: "\<forall>j \<in> set (take k ?p). f j \<le> f ?i"
    using sp by (auto simp: sorted_append)
  have after_ge: "\<forall>j \<in> set (drop (Suc k) ?p). f ?i \<le> f j"
    using sp by (auto simp: sorted_append)
  have before_lt: "\<forall>j \<in> set (take k ?p). f j = f ?i \<longrightarrow> j < ?i"
    using st by (auto simp: sorted_wrt_append)
  have after_gt: "\<forall>j \<in> set (drop (Suc k) ?p). f j = f ?i \<longrightarrow> ?i < j"
    using st by (auto simp: sorted_wrt_append)
  have setp: "set xs = set (take k ?p) \<union> {?i} \<union> set (drop (Suc k) ?p)"
  proof -
    have "set xs = set ?p" by simp
    also have "\<dots> = set (take k ?p @ ?i # drop (Suc k) ?p)" using split by simp
    finally show ?thesis by simp
  qed
  have "set (take k ?p) = {j \<in> set xs. ?key j}"
  proof (intro set_eqI iffI)
    fix j assume j: "j \<in> set (take k ?p)"
    then have "j \<in> set xs" using setp by blast
    moreover have "?key j" using j before_le before_lt by force
    ultimately show "j \<in> {j \<in> set xs. ?key j}" by simp
  next
    fix j assume "j \<in> {j \<in> set xs. ?key j}"
    then have jx: "j \<in> set xs" and key: "?key j" by simp_all
    have "j \<noteq> ?i" using key by auto
    moreover have "j \<notin> set (drop (Suc k) ?p)" using key after_ge after_gt by force
    ultimately show "j \<in> set (take k ?p)" using jx setp by blast
  qed
  then have "card (set (take k ?p)) = card {j \<in> set xs. ?key j}" by simp
  moreover have "card (set (take k ?p)) = k"
    using dp kp by (simp add: distinct_card)
  moreover have "length (filter ?key xs) = card {j \<in> set xs. ?key j}"
  proof -
    have "{j \<in> set xs. ?key j} = {x. ?key x} \<inter> set xs" by blast
    then show ?thesis using distinct_length_filter[OF dxs, of ?key] by simp
  qed
  ultimately show ?thesis by simp
qed

lemma rank_nth:
  assumes "i < length x"
  shows "rank x ! i = int (length (filter (before_in_rank x i) [0..<length x]))"
proof -
  let ?n = "length x"
  let ?p = "argsort x"
  have lp: "length ?p = ?n" by (simp add: argsort_def)
  have "i \<in> set ?p" using assms by (simp add: argsort_def)
  then obtain k where k: "k < ?n" "?p ! k = i" using lp by (metis in_set_conv_nth)
  have dist: "distinct ?p" by (simp add: argsort_def)
  have "at_set (replicate ?n 0) ?p (map int [0..<?n]) ! (?p ! k) = map int [0..<?n] ! k"
    using dist lp k assms by (intro at_set_nth) simp_all
  then have r: "rank x ! i = int k" using k by (simp add: rank_def Let_def)
  have "k = length (filter (\<lambda>j. x ! j < x ! (?p ! k) \<or> (x ! j = x ! (?p ! k) \<and> j < ?p ! k)) [0..<?n])"
    unfolding argsort_def
    using stable_sort_position[of "[0..<?n]" k "\<lambda>i. x ! i"] k(1) by simp
  moreover have "before_in_rank x i = (\<lambda>j. x ! j < x ! i \<or> (x ! j = x ! i \<and> j < i))"
    by (rule ext) (simp add: before_in_rank_def)
  ultimately have "k = length (filter (before_in_rank x i) [0..<?n])"
    using k(2) by simp
  with r show ?thesis by simp
qed

lemma length_rank: "length (rank x) = length x"
  by (simp add: rank_def Let_def at_set_length)

lemma length_filter_upt_shift:
  "length (filter (\<lambda>j. Q (j - m)) [m..<m + n]) = length (filter Q [0..<n])"
proof -
  have "[m..<m + n] = map (\<lambda>j. j + m) [0..<n]"
    by (simp add: map_add_upt add.commute)
  then show ?thesis by (simp add: filter_map comp_def)
qed

lemma length_filter_nth:
  "length (filter (\<lambda>j. P (a ! j)) [0..<length a]) = length (filter P a)"
proof -
  have "length (filter P (map (\<lambda>j. a ! j) [0..<length a]))
      = length (filter (\<lambda>j. P (a ! j)) [0..<length a])"
    by (simp add: filter_map comp_def)
  then show ?thesis by (simp add: map_nth)
qed

lemma rank_left:
  assumes "i < length q"
  shows "rank (q @ a) ! i = rank q ! i + int (length (filter (\<lambda>x. x < q ! i) a))"
proof -
  let ?m = "length q"
  have i2: "i < length (q @ a)" using assms by simp
  have s: "[0..<length (q @ a)] = [0..<?m] @ [?m..<?m + length a]"
    using upt_add_eq_append[of 0 ?m "length a"] by simp
  have "before_in_rank (q @ a) i j = before_in_rank q i j" if "j < ?m" for j
    using that assms by (simp add: before_in_rank_def nth_append)
  then have 1: "filter (before_in_rank (q @ a) i) [0..<?m] = filter (before_in_rank q i) [0..<?m]"
    by (intro filter_cong) simp_all
  have "before_in_rank (q @ a) i j = (a ! (j - ?m) < q ! i)" if "?m \<le> j" for j
    using that assms by (simp add: before_in_rank_def nth_append)
  then have 2: "filter (before_in_rank (q @ a) i) [?m..<?m + length a]
         = filter (\<lambda>j. a ! (j - ?m) < q ! i) [?m..<?m + length a]"
    by (intro filter_cong) simp_all
  have 3: "length (filter (\<lambda>j. a ! (j - ?m) < q ! i) [?m..<?m + length a])
       = length (filter (\<lambda>x. x < q ! i) a)"
    using length_filter_upt_shift[of "\<lambda>j. a ! j < q ! i" ?m "length a"]
      length_filter_nth[of "\<lambda>x. x < q ! i" a] by simp
  have "rank (q @ a) ! i = int (length (filter (before_in_rank (q @ a) i) ([0..<?m] @ [?m..<?m + length a])))"
    using rank_nth[OF i2] unfolding s .
  also have "\<dots> = int (length (filter (before_in_rank q i) [0..<?m]))
         + int (length (filter (\<lambda>x. x < q ! i) a))"
    by (simp only: filter_append length_append 1 2 3 of_nat_add)
  finally show ?thesis by (simp only: rank_nth[OF assms])
qed

lemma rank_right:
  assumes "i < length q"
  shows "rank (a @ q) ! (length a + i) = rank q ! i + int (length (filter (\<lambda>x. x \<le> q ! i) a))"
proof -
  let ?n = "length a"
  have i2: "?n + i < length (a @ q)" using assms by simp
  have s: "[0..<length (a @ q)] = [0..<?n] @ [?n..<?n + length q]"
    using upt_add_eq_append[of 0 ?n "length q"] by simp
  have "before_in_rank (a @ q) (?n + i) j = (a ! j \<le> q ! i)" if "j < ?n" for j
    using that assms by (auto simp add: before_in_rank_def nth_append)
  then have 1: "filter (before_in_rank (a @ q) (?n + i)) [0..<?n]
         = filter (\<lambda>j. a ! j \<le> q ! i) [0..<?n]"
    by (intro filter_cong) simp_all
  have "before_in_rank (a @ q) (?n + i) j = before_in_rank q i (j - ?n)"
    if "?n \<le> j" for j
    using that assms by (auto simp add: before_in_rank_def nth_append)
  then have 2: "filter (before_in_rank (a @ q) (?n + i)) [?n..<?n + length q]
         = filter (\<lambda>j. before_in_rank q i (j - ?n)) [?n..<?n + length q]"
    by (intro filter_cong) simp_all
  have 3: "length (filter (\<lambda>j. a ! j \<le> q ! i) [0..<?n]) = length (filter (\<lambda>x. x \<le> q ! i) a)"
    by (rule length_filter_nth)
  have 4: "length (filter (\<lambda>j. before_in_rank q i (j - ?n)) [?n..<?n + length q])
      = length (filter (before_in_rank q i) [0..<length q])"
    by (rule length_filter_upt_shift)
  have "rank (a @ q) ! (?n + i)
      = int (length (filter (before_in_rank (a @ q) (?n + i)) ([0..<?n] @ [?n..<?n + length q])))"
    using rank_nth[OF i2] unfolding s .
  also have "\<dots> = int (length (filter (\<lambda>x. x \<le> q ! i) a))
      + int (length (filter (before_in_rank q i) [0..<length q]))"
    by (simp only: filter_append length_append 1 2 3 4 of_nat_add)
  finally show ?thesis by (simp only: rank_nth[OF assms] add.commute)
qed

lemma searchsorted_via_sort_correct:
  "searchsorted_via_sort a v sd = map (\<lambda>q. int (insertion_point sd a q)) v"
proof (rule nth_equalityI)
  show "length (searchsorted_via_sort a v sd) = length (map (\<lambda>q. int (insertion_point sd a q)) v)"
    by (cases sd) (simp_all add: searchsorted_via_sort_def Let_def length_rank)
next
  fix i assume "i < length (searchsorted_via_sort a v sd)"
  then have i: "i < length v"
    by (cases sd) (simp_all add: searchsorted_via_sort_def Let_def length_rank)
  show "searchsorted_via_sort a v sd ! i = map (\<lambda>q. int (insertion_point sd a q)) v ! i"
  proof (cases sd)
    case Left
    then show ?thesis using i rank_left[OF i, of a]
      by (simp add: searchsorted_via_sort_def Let_def length_rank insertion_point_def)
  next
    case Right
    then show ?thesis using i rank_right[OF i, of a]
      by (simp add: searchsorted_via_sort_def Let_def length_rank insertion_point_def)
  qed
qed

lemma searchsorted_insertion_point:
  assumes "sorted r" "length r < 2 ^ 63"
  shows "searchsorted r q sd m = map (\<lambda>x. int (insertion_point sd r x)) q"
proof (cases "length r = 0")
  case True
  then have "insertion_point sd r x = 0" for x
    by (cases sd) (simp_all add: insertion_point_def)
  with True show ?thesis by (simp add: searchsorted_def map_replicate_const)
next
  case False
  then show ?thesis
    using searchsorted_via_scan_correct[OF assms] searchsorted_via_sort_correct
      searchsorted_via_compare_all_correct
    by (cases m) (simp_all add: searchsorted_def)
qed

subsection \<open>Dense arrays and repeat\<close>

lemma length_concat_const:
  "(\<And>x. x \<in> set xs \<Longrightarrow> length (f x) = c) \<Longrightarrow> length (concat (map f xs)) = length xs * c"
  by (induction xs) simp_all

lemma length_ndindex: "length (ndindex sh) = prod_list sh"
proof (induction sh)
  case Nil
  then show ?case by simp
next
  case (Cons n sh)
  have "length (concat (map (\<lambda>i. map ((#) i) (ndindex sh)) [0..<n])) = length [0..<n] * prod_list sh"
    by (rule length_concat_const) (simp add: Cons.IH)
  then show ?case by simp
qed

lemma take_drop_concat_replicate:
  "i < length xs \<Longrightarrow>
   take k (drop (i * k) (concat (map (replicate k) xs))) = replicate k (xs ! i)"
proof (induction xs arbitrary: i)
  case Nil
  then show ?case by simp
next
  case (Cons x xs)
  show ?case
  proof (cases i)
    case 0
    then show ?thesis by simp
  next
    case (Suc j)
    with Cons.prems have "j < length xs" by simp
    from Cons.IH[OF this] Suc show ?thesis by simp
  qed
qed

lemma repeat_1d_data:
  "repeat (of_list xs) k None =
     Inr \<lparr>shape = [length xs * k], data = concat (map (replicate k) xs)\<rparr>"
proof -
  let ?n = "length xs"
  let ?arr = "\<lparr>shape = [?n], data = xs\<rparr>"
  let ?f = "\<lambda>ix. get ?arr (map2 (\<lambda>d n. if n = 1 then 0 else ix ! d) [0] [?n])"
  have rav: "ravel (of_list xs) = ?arr"
    by (simp add: ravel_def reshape_def of_list_def)
  have dims: "filter (\<lambda>i. i \<noteq> Suc 0) [0..<2] = [0]"
    by (simp add: upt_rec)
  have row: "map (\<lambda>ix. ?f (i # ix)) (ndindex [k]) = replicate k (xs ! i)" if "i < ?n" for i
  proof -
    have "?f (i # ix) = xs ! i" for ix
      using that by (auto simp add: get_def)
    then have "map (\<lambda>ix. ?f (i # ix)) (ndindex [k]) = map (\<lambda>_. xs ! i) (ndindex [k])"
      by simp
    also have "\<dots> = replicate (length (ndindex [k])) (xs ! i)"
      by (simp only: map_replicate_const)
    also have "\<dots> = replicate k (xs ! i)"
      by (simp only: length_ndindex) simp
    finally show ?thesis .
  qed
  have "map ?f (ndindex [?n, k])
      = concat (map (\<lambda>i. map (\<lambda>ix. ?f (i # ix)) (ndindex [k])) [0..<?n])"
    by (simp add: map_concat comp_def)
  also have "\<dots> = concat (map (\<lambda>i. replicate k (xs ! i)) [0..<?n])"
    using row by (intro arg_cong[where f = concat] map_cong) simp_all
  also have "\<dots> = concat (map (replicate k) (map (\<lambda>i. xs ! i) [0..<?n]))"
    by (simp add: comp_def)
  also have "\<dots> = concat (map (replicate k) xs)"
    by (simp only: map_nth)
  finally have tab: "map ?f (ndindex [?n, k]) = concat (map (replicate k) xs)" .
  have "repeat (of_list xs) k None
      = Inr (reshape (broadcast_in_dim ?arr [?n, k] [0]) [?n * k])"
    unfolding repeat_def rav by (simp add: Let_def dims)
  also have "broadcast_in_dim ?arr [?n, k] [0] = \<lparr>shape = [?n, k], data = map ?f (ndindex [?n, k])\<rparr>"
    by (simp only: broadcast_in_dim_def tabulate_def ndarray.simps)
  finally show ?thesis by (simp only: tab reshape_def ndarray.simps)
qed


lemma shape_at_set_nd: "shape (at_set_nd a idx vals) = shape a"
  by (simp add: at_set_nd_def)


subsection \<open>Cumulative sums, nonzero, insert and delete\<close>

lemma at_add_length: "length (at_add xs idx vals) = length xs"
proof -
  have "length (fold (\<lambda>(i, v) acc. if i < length acc then acc[i := acc ! i + v] else acc) ps xs)
      = length xs" for ps :: "(nat \<times> 'a) list"
    by (induction ps arbitrary: xs) (auto split: prod.splits)
  then show ?thesis by (simp add: at_add_def)
qed

lemma at_add_Cons:
  "at_add xs (i # idx) (v # vals) =
     at_add (if i < length xs then xs[i := xs ! i + v] else xs) idx vals"
  by (simp add: at_add_def)

lemma at_add_Nil: "at_add xs [] vals = xs"
  by (simp add: at_add_def)

lemma at_add_ones_nth:
  fixes xs :: "int list"
  shows "t < length xs \<Longrightarrow>
    at_add xs idx (replicate (length idx) 1) ! t = xs ! t + int (length (filter (\<lambda>v. v = t) idx))"
proof (induction idx arbitrary: xs)
  case Nil
  then show ?case by (simp add: at_add_Nil)
next
  case (Cons i idx)
  let ?xs' = "if i < length xs then xs[i := xs ! i + 1] else xs"
  have len: "t < length ?xs'" using Cons.prems by simp
  have "at_add xs (i # idx) (replicate (length (i # idx)) 1) ! t
      = at_add ?xs' idx (replicate (length idx) 1) ! t"
    by (simp add: at_add_Cons)
  also have "\<dots> = ?xs' ! t + int (length (filter (\<lambda>v. v = t) idx))"
    using Cons.IH[OF len] .
  also have "\<dots> = xs ! t + int (length (filter (\<lambda>v. v = t) (i # idx)))"
    using Cons.prems by (auto simp: nth_list_update)
  finally show ?case .
qed

lemma length_cumsum_from: "length (cumsum_from s xs) = length xs"
  by (induction xs arbitrary: s) simp_all

lemma cumsum_from_nth:
  "k < length xs \<Longrightarrow> cumsum_from s xs ! k = s + sum_list (take (Suc k) xs)"
proof (induction xs arbitrary: s k)
  case Nil
  then show ?case by simp
next
  case (Cons x xs)
  show ?case
  proof (cases k)
    case 0
    then show ?thesis by simp
  next
    case (Suc j)
    with Cons.prems have "j < length xs" by simp
    from Cons.IH[OF this, of "s + x"] Suc show ?thesis by (simp add: add.assoc)
  qed
qed

lemma sum_count_below:
  fixes idx :: "nat list" and k :: nat
  shows "(\<Sum>t<k. int (length (filter (\<lambda>v. v = t) idx))) = int (length (filter (\<lambda>v. v < k) idx))"
proof (induction k)
  case 0
  then show ?case by simp
next
  case (Suc k)
  have "length (filter (\<lambda>v. v < Suc k) idx)
      = length (filter (\<lambda>v. v < k) idx) + length (filter (\<lambda>v. v = k) idx)"
    by (induction idx) auto
  with Suc show ?case by simp
qed

lemma true_positions_Cons:
  "filter (\<lambda>p. (b # m) ! p) [0..<length (b # m)]
     = (if b then [0] else []) @ map Suc (filter (\<lambda>p. m ! p) [0..<length m])"
proof -
  have "[0..<Suc (length m)] = 0 # [Suc 0..<Suc (length m)]"
    by (rule upt_conv_Cons) simp
  then have "[0..<length (b # m)] = 0 # map Suc [0..<length m]"
    by (simp only: map_Suc_upt list.size(4)) simp
  then show ?thesis by (simp add: filter_map comp_def)
qed

lemma length_true_positions:
  "length (filter (\<lambda>p. m ! p) [0..<length m]) = length (filter id m)"
proof (induction m)
  case Nil
  then show ?case by simp
next
  case (Cons b m)
  show ?case unfolding true_positions_Cons using Cons.IH by simp
qed

lemma cumsum_from_ge:
  fixes s :: nat
  shows "v \<in> set (cumsum_from s xs) \<Longrightarrow> s \<le> v"
proof (induction xs arbitrary: s)
  case Nil
  then show ?case by simp
next
  case (Cons x xs)
  then show ?case by (auto dest: Cons.IH)
qed

lemma count_prefix_sums_below:
  fixes s k :: nat
  assumes "s \<le> k" "k - s < length (filter (\<lambda>p. m ! p) [0..<length m])"
  shows "length (filter (\<lambda>v. v < Suc k) (cumsum_from s (map (\<lambda>b. if b then 1 else 0) m)))
       = filter (\<lambda>p. m ! p) [0..<length m] ! (k - s)"
  using assms
proof (induction m arbitrary: s)
  case Nil
  then show ?case by simp
next
  case (Cons b m)
  let ?pos = "filter (\<lambda>p. m ! p) [0..<length m]"
  let ?w = "map (\<lambda>b. if b then 1 else (0::nat)) m"
  show ?case
  proof (cases b)
    case False
    then have len: "k - s < length ?pos"
      using Cons.prems(2) unfolding true_positions_Cons by simp
    have "length (filter (\<lambda>v. v < Suc k) (cumsum_from s (map (\<lambda>b. if b then 1 else 0) (b # m))))
        = Suc (length (filter (\<lambda>v. v < Suc k) (cumsum_from s ?w)))"
      using False Cons.prems(1) by simp
    also have "\<dots> = Suc (?pos ! (k - s))"
      using Cons.IH[OF Cons.prems(1) len] by simp
    also have "\<dots> = filter (\<lambda>p. (b # m) ! p) [0..<length (b # m)] ! (k - s)"
      unfolding true_positions_Cons using False len by simp
    finally show ?thesis .
  next
    case True
    show ?thesis
    proof (cases "s = k")
      case sk: True
      have "Suc k \<le> v" if "v \<in> set (cumsum_from (Suc k) ?w)" for v
        using that by (rule cumsum_from_ge)
      then have "\<forall>v \<in> set (cumsum_from (Suc k) ?w). \<not> v < Suc k"
        by (auto simp: not_less)
      then have "filter (\<lambda>v. v < Suc k) (cumsum_from (Suc k) ?w) = []" by simp
      then have "length (filter (\<lambda>v. v < Suc k) (cumsum_from s (map (\<lambda>b. if b then 1 else 0) (b # m)))) = 0"
        using True sk by simp
      moreover have "filter (\<lambda>p. (b # m) ! p) [0..<length (b # m)] ! (k - s) = 0"
        unfolding true_positions_Cons using True sk by simp
      ultimately show ?thesis by simp
    next
      case sk: False
      then have s1: "Suc s \<le> k" using Cons.prems(1) by simp
      have len: "k - Suc s < length ?pos"
        using Cons.prems(2) True s1 unfolding true_positions_Cons by simp
      have "length (filter (\<lambda>v. v < Suc k) (cumsum_from s (map (\<lambda>b. if b then 1 else 0) (b # m))))
          = Suc (length (filter (\<lambda>v. v < Suc k) (cumsum_from (Suc s) ?w)))"
        using True s1 by simp
      also have "\<dots> = Suc (?pos ! (k - Suc s))"
        using Cons.IH[OF s1 len] by simp
      also have "\<dots> = filter (\<lambda>p. (b # m) ! p) [0..<length (b # m)] ! (k - s)"
        unfolding true_positions_Cons using True s1 len
        by (simp add: nth_Cons' Suc_diff_Suc)
      finally show ?thesis .
    qed
  qed
qed

lemma nat_cumsum_from:
  "map (\<lambda>v. nat (max 0 v)) (cumsum_from (int s) (map (\<lambda>b. if b then 1 else 0) m))
     = cumsum_from s (map (\<lambda>b. if b then 1 else 0) m)"
proof (induction m arbitrary: s)
  case Nil
  then show ?case by simp
next
  case (Cons b m)
  show ?case using Cons.IH[of s] Cons.IH[of "Suc s"] by (cases b) (simp_all add: add.commute)
qed

lemma nonzero_correct:
  assumes "length (filter id msk) = n"
  shows "nonzero msk (Some n) = map int (filter (\<lambda>p. msk ! p) [0..<length msk])"
proof (cases "length msk = 0 \<or> n = 0")
  case True
  have "length (filter (\<lambda>p. msk ! p) [0..<length msk]) = n"
    using assms by (simp add: length_true_positions)
  with True assms have "filter (\<lambda>p. msk ! p) [0..<length msk] = []" by auto
  moreover have "n = 0" using True assms by auto
  ultimately show ?thesis by (simp add: nonzero_def)
next
  case False
  let ?pos = "filter (\<lambda>p. msk ! p) [0..<length msk]"
  let ?c = "cumsum (map (\<lambda>b. if b then 1 else 0) msk) :: int list"
  let ?cn = "cumsum_from (0::nat) (map (\<lambda>b. if b then 1 else 0) msk)"
  let ?b = "bincount ?c n"
  let ?f = "cumsum ?b"
  have lpos: "length ?pos = n" using assms by (simp add: length_true_positions)
  have cn: "map (\<lambda>v. nat (max 0 v)) ?c = ?cn"
    using nat_cumsum_from[of 0 msk] by (simp add: cumsum_def)
  have lb: "length ?b = n" by (simp add: bincount_def at_add_length)
  have bt: "?b ! t = int (length (filter (\<lambda>v. v = t) ?cn))" if "t < n" for t
  proof -
    have "at_add (replicate n 0) ?cn (replicate (length ?cn) 1) ! t
        = replicate n (0::int) ! t + int (length (filter (\<lambda>v. v = t) ?cn))"
      using that by (intro at_add_ones_nth) simp
    moreover have "length ?c = length ?cn"
      by (simp add: cumsum_def length_cumsum_from)
    ultimately show ?thesis using that unfolding bincount_def cn by simp
  qed
  have fk: "?f ! k = int (?pos ! k)" if "k < n" for k
  proof -
    have "?f ! k = sum_list (take (Suc k) ?b)"
      using that lb by (simp add: cumsum_def cumsum_from_nth)
    also have "\<dots> = (\<Sum>t<Suc k. ?b ! t)"
      using that lb by (simp add: sum_list_sum_nth atLeast0LessThan)
    also have "\<dots> = (\<Sum>t<Suc k. int (length (filter (\<lambda>v. v = t) ?cn)))"
      using that by (intro sum.cong) (auto simp: bt)
    also have "\<dots> = int (length (filter (\<lambda>v. v < Suc k) ?cn))"
      by (rule sum_count_below)
    also have "\<dots> = int (?pos ! k)"
      using count_prefix_sums_below[of 0 k msk] that lpos by simp
    finally show ?thesis .
  qed
  have posN: "?pos ! k < length msk" if "k < n" for k
  proof -
    have "?pos ! k \<in> set ?pos" using that lpos by (intro nth_mem) simp
    moreover have "set ?pos \<subseteq> {0..<length msk}" by auto
    ultimately have "?pos ! k \<in> {0..<length msk}" by (rule subsetD[rotated])
    then show ?thesis by simp
  qed
  have "map (\<lambda>f. (f div 1) mod int (length msk)) ?f = map int ?pos"
  proof (rule nth_equalityI)
    show "length (map (\<lambda>f. (f div 1) mod int (length msk)) ?f) = length (map int ?pos)"
      using lb lpos by (simp add: cumsum_def length_cumsum_from)
  next
    fix k assume "k < length (map (\<lambda>f. (f div 1) mod int (length msk)) ?f)"
    then have k: "k < n" using lb by (simp add: cumsum_def length_cumsum_from)
    then have "k < length ?f" using lb by (simp add: cumsum_def length_cumsum_from)
    then show "map (\<lambda>f. (f div 1) mod int (length msk)) ?f ! k = map int ?pos ! k"
      using k fk[OF k] posN[OF k] lpos by simp
  qed
  with False show ?thesis by (simp add: nonzero_def Let_def)
qed

lemma at_add_nth_other:
  "j \<notin> set idx \<Longrightarrow> at_add xs idx vals ! j = xs ! j"
proof (induction idx arbitrary: xs vals)
  case Nil
  then show ?case by (simp add: at_add_Nil)
next
  case (Cons i idx)
  show ?case
  proof (cases vals)
    case Nil
    then show ?thesis by (simp add: at_add_def)
  next
    case (Cons v vs)
    with Cons.prems Cons.IH[of "if i < length xs then xs[i := xs ! i + v] else xs" vs]
    show ?thesis by (simp add: at_add_Cons)
  qed
qed

lemma at_add_nth:
  "distinct idx \<Longrightarrow> length idx = length vals \<Longrightarrow> k < length idx \<Longrightarrow> idx ! k < length xs
   \<Longrightarrow> at_add xs idx vals ! (idx ! k) = xs ! (idx ! k) + vals ! k"
proof (induction idx arbitrary: xs vals k)
  case Nil
  then show ?case by simp
next
  case (Cons i idx)
  then obtain v vs where vals: "vals = v # vs" by (cases vals) auto
  let ?xs' = "if i < length xs then xs[i := xs ! i + v] else xs"
  show ?case
  proof (cases k)
    case 0
    with Cons.prems vals show ?thesis
      by (simp add: at_add_Cons at_add_nth_other)
  next
    case (Suc k')
    have ne: "idx ! k' \<noteq> i" using Cons.prems Suc by auto
    have "at_add ?xs' idx vs ! (idx ! k') = ?xs' ! (idx ! k') + vs ! k'"
      using Cons.prems vals Suc by (intro Cons.IH) simp_all
    with ne Suc vals show ?thesis by (simp add: at_add_Cons)
  qed
qed

lemma length_argsort: "length (argsort x) = length x"
  by (simp add: argsort_def)

lemma distinct_argsort: "distinct (argsort x)"
  by (simp add: argsort_def)

lemma set_argsort: "set (argsort x) = {0..<length x}"
  by (simp add: argsort_def)

lemma argsort_nth_less: "k < length x \<Longrightarrow> argsort x ! k < length x"
  using set_argsort[of x] length_argsort[of x] nth_mem[of k "argsort x"] by auto

lemma rank_argsort:
  assumes "k < length x"
  shows "rank x ! (argsort x ! k) = int k"
proof -
  have "at_set (replicate (length x) 0) (argsort x) (map int [0..<length x]) ! (argsort x ! k)
      = map int [0..<length x] ! k"
    using assms by (intro at_set_nth) (simp_all add: distinct_argsort length_argsort argsort_nth_less)
  then show ?thesis using assms by (simp add: rank_def Let_def)
qed

lemma values_ind_nth:
  assumes "j < length x"
  shows "values_ind x (length x) ! j = x ! j + rank x ! j"
proof -
  have "j \<in> set (argsort x)" using assms by (simp add: set_argsort)
  then obtain k where k: "k < length x" "argsort x ! k = j"
    by (metis in_set_conv_nth length_argsort)
  have "at_add x (argsort x) (map int [0..<length x]) ! (argsort x ! k)
      = x ! (argsort x ! k) + map int [0..<length x] ! k"
    using k(1) by (intro at_add_nth) (simp_all add: distinct_argsort length_argsort argsort_nth_less)
  then show ?thesis using k rank_argsort[OF k(1)] by (simp add: values_ind_def)
qed

lemma length_values_ind: "length (values_ind x m) = length x"
  by (simp add: values_ind_def at_add_length)

lemma rank_less:
  assumes "j < length x"
  shows "0 \<le> rank x ! j \<and> rank x ! j < int (length x)"
proof -
  have "\<not> before_in_rank x j j" by (simp add: before_in_rank_def)
  moreover have "j \<in> set [0..<length x]" using assms by simp
  ultimately have "length (filter (before_in_rank x j) [0..<length x]) < length [0..<length x]"
    by (intro length_filter_less) 
  then show ?thesis by (simp add: rank_nth[OF assms])
qed

lemma rank_mono:
  assumes "before_in_rank x j2 j1" "j1 < length x" "j2 < length x"
  shows "rank x ! j1 < rank x ! j2"
proof -
  let ?A = "{i \<in> set [0..<length x]. before_in_rank x j1 i}"
  let ?B = "{i \<in> set [0..<length x]. before_in_rank x j2 i}"
  have len: "length (filter P [0..<length x]) = card {i \<in> set [0..<length x]. P i}" for P
  proof -
    have "{i \<in> set [0..<length x]. P i} = {i. P i} \<inter> set [0..<length x]" by blast
    then show ?thesis using distinct_length_filter[of "[0..<length x]" P] by simp
  qed
  have sub: "?A \<subseteq> ?B" using assms(1) by (auto simp: before_in_rank_def)
  have "j1 \<in> ?B" using assms by simp
  moreover have "j1 \<notin> ?A" by (simp add: before_in_rank_def)
  ultimately have "?A \<subset> ?B" using sub by blast
  then have "card ?A < card ?B" by (intro psubset_card_mono) simp_all
  then show ?thesis
    by (simp only: rank_nth[OF assms(2)] rank_nth[OF assms(3)] len of_nat_less_iff)
qed

lemma values_ind_strict:
  assumes "before_in_rank x j2 j1" "j1 < length x" "j2 < length x"
  shows "values_ind x (length x) ! j1 < values_ind x (length x) ! j2"
proof -
  have "x ! j1 \<le> x ! j2" using assms(1) by (auto simp: before_in_rank_def)
  with rank_mono[OF assms] show ?thesis
    by (simp add: values_ind_nth[OF assms(2)] values_ind_nth[OF assms(3)])
qed

lemma distinct_values_ind: "distinct (values_ind x (length x))"
proof -
  have "values_ind x (length x) ! i \<noteq> values_ind x (length x) ! j"
    if "i < length x" "j < length x" "i \<noteq> j" for i j
  proof -
    have "before_in_rank x j i \<or> before_in_rank x i j"
      using that(3) by (auto simp: before_in_rank_def)
    then show ?thesis
      using values_ind_strict[of x j i] values_ind_strict[of x i j] that by fastforce
  qed
  then show ?thesis by (simp add: distinct_conv_nth length_values_ind)
qed

lemma values_ind_bounds:
  assumes "\<forall>i \<in> set x. 0 \<le> i \<and> i \<le> int n" "v \<in> set (values_ind x (length x))"
  shows "0 \<le> v \<and> v < int (n + length x)"
proof -
  obtain j where j: "j < length x" "v = values_ind x (length x) ! j"
    using assms(2) by (metis in_set_conv_nth length_values_ind)
  have "0 \<le> x ! j \<and> x ! j \<le> int n" using assms(1) j(1) by simp
  with rank_less[OF j(1)] j show ?thesis by (simp add: values_ind_nth)
qed

lemma at_set_const_nth:
  "p < length xs \<Longrightarrow>
   at_set xs idx (replicate (length idx) c) ! p = (if p \<in> set idx then c else xs ! p)"
proof (induction idx arbitrary: xs)
  case Nil
  then show ?case by (simp add: at_set_Nil)
next
  case (Cons i idx)
  have "at_set xs (i # idx) (replicate (length (i # idx)) c) ! p
      = at_set (xs[i := c]) idx (replicate (length idx) c) ! p"
    by (simp add: at_set_Cons)
  also have "\<dots> = (if p \<in> set idx then c else xs[i := c] ! p)"
    using Cons.prems by (intro Cons.IH) simp
  also have "\<dots> = (if p \<in> set (i # idx) then c else xs ! p)"
    using Cons.prems by (auto simp: nth_list_update)
  finally show ?case .
qed

lemma mask_select:
  "length xs = length bs \<Longrightarrow>
   map fst (filter snd (zip xs bs)) = map (\<lambda>p. xs ! p) (filter (\<lambda>p. bs ! p) [0..<length xs])"
proof (induction xs bs rule: list_induct2)
  case Nil
  then show ?case by simp
next
  case (Cons x xs b bs)
  have "[0..<Suc (length xs)] = 0 # [Suc 0..<Suc (length xs)]"
    by (rule upt_conv_Cons) simp
  then have up: "[0..<length (x # xs)] = 0 # map Suc [0..<length xs]"
    by (simp only: map_Suc_upt list.size(4)) simp
  show ?case unfolding up using Cons.IH by (simp add: filter_map comp_def)
qed

lemma complement_positions:
  assumes "distinct vin" "\<forall>p \<in> set vin. p < n + length vin"
  shows "length (filter (\<lambda>p. p \<notin> set vin) [0..<n + length vin]) = n"
proof -
  let ?N = "n + length vin"
  have "length (filter (\<lambda>p. p \<notin> set vin) [0..<?N]) = card ({p. p \<notin> set vin} \<inter> set [0..<?N])"
    by (intro distinct_length_filter) simp
  also have "{p. p \<notin> set vin} \<inter> set [0..<?N] = {0..<?N} - set vin" by auto
  also have "card ({0..<?N} - set vin) = card {0..<?N} - card (set vin)"
    using assms(2) by (intro card_Diff_subset) auto
  also have "\<dots> = n" using assms(1) by (simp add: distinct_card)
  finally show ?thesis .
qed

lemma insert_positions:
  assumes rng: "\<forall>i \<in> set indices. 0 \<le> i \<and> i \<le> int n"
  defines "vi \<equiv> values_ind indices (length indices)"
  defines "arr_mask \<equiv> at_set (replicate (n + length indices) True) (map nat vi)
                         (replicate (length vi) False)"
  shows "distinct (map nat vi)"
    and "\<forall>p \<in> set (map nat vi). p < n + length indices"
    and "\<forall>p < n + length indices. arr_mask ! p = (p \<notin> set (map nat vi))"
    and "length arr_mask = n + length indices"
    and "map nat (nonzero arr_mask (Some n))
           = filter (\<lambda>p. p \<notin> set (map nat vi)) [0..<n + length indices]"
    and "length (filter (\<lambda>p. p \<notin> set (map nat vi)) [0..<n + length indices]) = n"
proof -
  let ?N = "n + length indices"
  let ?vin = "map nat vi"
  have lvi: "length vi = length indices" by (simp add: vi_def length_values_ind)
  have bnd: "0 \<le> v \<and> v < int ?N" if "v \<in> set vi" for v
    using values_ind_bounds[OF rng] that by (simp add: vi_def)
  have "inj_on nat (set vi)"
    using bnd by (intro inj_onI) (metis nat_eq_iff2 int_nat_eq)
  then show d: "distinct ?vin"
    using distinct_values_ind[of indices] by (simp add: distinct_map vi_def)
  show r: "\<forall>p \<in> set ?vin. p < ?N"
    using bnd by fastforce
  show lm: "length arr_mask = ?N" by (simp add: arr_mask_def at_set_length)
  have am: "arr_mask ! p = (p \<notin> set ?vin)" if "p < ?N" for p
  proof -
    have "at_set (replicate ?N True) ?vin (replicate (length ?vin) False) ! p
        = (if p \<in> set ?vin then False else replicate ?N True ! p)"
      using that by (intro at_set_const_nth) simp
    then show ?thesis using that by (simp add: arr_mask_def)
  qed
  then show "\<forall>p < ?N. arr_mask ! p = (p \<notin> set ?vin)" by simp
  have feq: "filter (\<lambda>p. arr_mask ! p) [0..<length arr_mask]
           = filter (\<lambda>p. p \<notin> set ?vin) [0..<?N]"
    unfolding lm using am by (intro filter_cong) simp_all
  have cnt: "length (filter (\<lambda>p. p \<notin> set ?vin) [0..<?N]) = n"
    using complement_positions[of ?vin n] d r lvi by simp
  then show "length (filter (\<lambda>p. p \<notin> set ?vin) [0..<?N]) = n" .
  have "length (filter id arr_mask) = n"
    using cnt feq length_true_positions[of arr_mask] by simp
  then have "nonzero arr_mask (Some n) = map int (filter (\<lambda>p. arr_mask ! p) [0..<length arr_mask])"
    by (rule nonzero_correct)
  then show "map nat (nonzero arr_mask (Some n)) = filter (\<lambda>p. p \<notin> set ?vin) [0..<?N]"
    unfolding feq by (simp add: comp_def)
qed

lemma delete_after_scatter:
  fixes a :: "'a list"
  assumes rng: "\<forall>i \<in> set indices. 0 \<le> i \<and> i \<le> int (length a)"
    and len: "length out1 = length a + length indices"
  defines "vi \<equiv> values_ind indices (length indices)"
  defines "arr_mask \<equiv> at_set (replicate (length a + length indices) True) (map nat vi)
                         (replicate (length vi) False)"
  defines "out \<equiv> at_set out1 (map nat (nonzero arr_mask (Some (length a)))) a"
  shows "delete out (Indices vi) False = Inr a"
proof -
  let ?n = "length a"
  let ?N = "?n + length indices"
  let ?vin = "map nat vi"
  let ?comp = "filter (\<lambda>p. p \<notin> set ?vin) [0..<?N]"
  note pos = insert_positions[OF rng, folded vi_def, folded arr_mask_def]
  have lo: "length out = ?N" by (simp add: out_def at_set_length len)
  have comp: "map nat (nonzero arr_mask (Some ?n)) = ?comp" by (rule pos(5))
  have lcomp: "length ?comp = ?n" by (rule pos(6))
  have outk: "out ! (?comp ! k) = a ! k" if "k < ?n" for k
  proof -
    have "?comp ! k \<in> set ?comp" using that lcomp by (intro nth_mem) simp
    then have "?comp ! k < ?N" by simp
    then have "at_set out1 ?comp a ! (?comp ! k) = a ! k"
      using that lcomp len by (intro at_set_nth) simp_all
    then show ?thesis by (simp add: out_def comp)
  qed
  have bnd: "0 \<le> v \<and> v < int ?N" if "v \<in> set vi" for v
    using values_ind_bounds[OF rng] that by (simp add: vi_def)
  have inrange: "list_all (\<lambda>i. - int (length out) \<le> i \<and> i < int (length out)) vi"
    using bnd lo by (fastforce simp: list_all_iff)
  have "(if v < 0 then v + int (length out) else v) = v" if "v \<in> set vi" for v
    using bnd[OF that] by simp
  then have wrap: "map (\<lambda>i. nat (if i < 0 then i + int (length out) else i)) vi = ?vin"
    by (intro map_cong) simp_all
  have lvi: "length vi = length indices" by (simp add: vi_def length_values_ind)
  have msk: "at_set (replicate (length out) True) ?vin (replicate (length vi) False) = arr_mask"
    by (simp add: arr_mask_def lo)
  have "delete out (Indices vi) False = Inr (map fst (filter snd (zip out arr_mask)))"
    using inrange by (simp add: delete_def Let_def wrap msk)
  also have "map fst (filter snd (zip out arr_mask))
      = map (\<lambda>p. out ! p) (filter (\<lambda>p. arr_mask ! p) [0..<length out])"
    using lo pos(4) by (intro mask_select) simp
  also have "filter (\<lambda>p. arr_mask ! p) [0..<length out] = ?comp"
    unfolding lo using pos(3) by (intro filter_cong) simp_all
  also have "map (\<lambda>p. out ! p) ?comp = a"
  proof (rule nth_equalityI)
    show "length (map (\<lambda>p. out ! p) ?comp) = length a" using lcomp by simp
  next
    fix k assume "k < length (map (\<lambda>p. out ! p) ?comp)"
    then have k: "k < ?n" using lcomp by simp
    then have "k < length ?comp" using lcomp by simp
    then show "map (\<lambda>p. out ! p) ?comp ! k = a ! k" using outk[OF k] by simp
  qed
  finally show ?thesis .
qed



lemma normalize_indices_id:
  "\<forall>i \<in> set ixs. 0 \<le> i \<and> i \<le> int n \<Longrightarrow> normalize_indices ixs n = ixs"
  by (induction ixs) (auto simp: normalize_indices_def clip_def)

lemma insert_unfold:
  fixes a :: "'a::zero list"
  assumes "insert_indices obj (length vs) (length a) = Inr indices"
    and "length indices = length vs \<or> length vs = 1"
  shows "insert a obj vs =
     Inr (at_set
           (at_set (replicate (length a + length indices) 0)
              (map nat (values_ind indices (length indices)))
              (if length vs = 1 then replicate (length (values_ind indices (length indices))) (vs ! 0)
               else vs))
           (map nat (nonzero
              (at_set (replicate (length a + length indices) True)
                 (map nat (values_ind indices (length indices)))
                 (replicate (length (values_ind indices (length indices))) False))
              (Some (length a))))
           a)"
proof -
  have "broadcast_shapes (length indices) (length vs) = Inr (length indices)"
    using assms(2) by (auto simp: broadcast_shapes_def)
  then show ?thesis using assms(1) by (simp add: insert_def Let_def)
qed



subsection \<open>Histogram accumulation\<close>





subsection \<open>Claims about the insertion-point search\<close>



text \<open>
  C2.  For a sorted reference array \<open>r\<close>, a query array \<open>q\<close> and either side, the
  methods \<open>scan\<close>, \<open>scan_unrolled\<close>, \<open>sort\<close> and \<open>compare_all\<close> return the same index
  array.
\<close>

theorem searchsorted_methods_agree:
  assumes "sorted r" "length r < 2 ^ 63"
  shows "searchsorted r q sd Scan = searchsorted r q sd CompareAll
       \<and> searchsorted r q sd ScanUnrolled = searchsorted r q sd CompareAll
       \<and> searchsorted r q sd Sort = searchsorted r q sd CompareAll"
  by (simp add: searchsorted_insertion_point[OF assms])

theorem searchsorted_methods_agree_witness:
  "sorted [1, 2, 2, 3, 4, 5, 5 :: int] \<and> length [1, 2, 2, 3, 4, 5, 5 :: int] < 2 ^ 63
   \<and> searchsorted [1, 2, 2, 3, 4, 5, 5 :: int] [0, 3, 8, 2] Left Scan = [0, 3, 7, 1]
   \<and> searchsorted [1, 2, 2, 3, 4, 5, 5 :: int] [0, 3, 8, 2] Left ScanUnrolled = [0, 3, 7, 1]
   \<and> searchsorted [1, 2, 2, 3, 4, 5, 5 :: int] [0, 3, 8, 2] Left Sort = [0, 3, 7, 1]"
  using searchsorted_methods_agree[of "[1, 2, 2, 3, 4, 5, 5 :: int]" "[0, 3, 8, 2]" Left]
  by (simp add: searchsorted_def searchsorted_via_compare_all_def sort_lt_comparator_def)

subsection \<open>Claims about repeat and fill_diagonal\<close>

text \<open>
  C7.  For a one-dimensional array \<open>a\<close> and a scalar count \<open>k \<ge> 0\<close>, \<open>repeat(a, k)\<close> returns
  an array of length \<open>k * len(a)\<close> whose slice \<open>[i*k : (i+1)*k]\<close> is \<open>a[i]\<close> repeated \<open>k\<close>
  times, for every index \<open>i\<close> of \<open>a\<close>.
\<close>

theorem repeat_scalar_blocks:
  "\<exists>r. repeat (of_list a) k None = Inr r \<and>
       shape r = [k * length a] \<and> length (data r) = k * length a \<and>
       (\<forall>i < length a. take k (drop (i * k) (data r)) = replicate k (a ! i))"
proof -
  let ?r = "\<lparr>shape = [length a * k], data = concat (map (replicate k) a)\<rparr>"
  have ret: "repeat (of_list a) k None = Inr ?r" by (rule repeat_1d_data)
  have len: "length (data ?r) = k * length a"
    using length_concat_const[of a "replicate k" k] by (simp add: mult.commute)
  have blocks: "\<forall>i < length a. take k (drop (i * k) (data ?r)) = replicate k (a ! i)"
    by (simp add: take_drop_concat_replicate)
  show ?thesis using ret len blocks by (intro exI[of _ ?r]) (simp add: mult.commute)
qed

theorem repeat_scalar_blocks_witness:
  "(1::nat) < length [1, 2, 3 :: int] \<and>
   (\<exists>r. repeat (of_list [1, 2, 3 :: int]) 2 None = Inr r \<and> shape r = [6]
        \<and> take 2 (drop 2 (data r)) = [2, 2])"
proof -
  obtain r where r: "repeat (of_list [1, 2, 3 :: int]) 2 None = Inr r"
    "shape r = [2 * length [1, 2, 3 :: int]]"
    "\<forall>i < length [1, 2, 3 :: int]. take 2 (drop (i * 2) (data r)) = replicate 2 ([1, 2, 3 :: int] ! i)"
    using repeat_scalar_blocks[of "[1, 2, 3 :: int]" 2] by blast
  have "(1::nat) < length [1, 2, 3 :: int]" by simp
  with r(3) have "take 2 (drop (1 * 2) (data r)) = replicate 2 ([1, 2, 3 :: int] ! 1)"
    by blast
  then have "take 2 (drop 2 (data r)) = [2, 2]" by (simp add: numeral_2_eq_2)
  with r(1,2) show ?thesis by simp
qed

text \<open>
  C10.  \<open>fill_diagonal\<close> raises \<open>NotImplementedError\<close> whenever \<open>inplace\<close> is true (its
  default) or \<open>wrap\<close> is true; a result is returned only for \<open>inplace=False\<close> and
  \<open>wrap=False\<close>, and it is a fresh array of the input's shape (the function is pure:
  the input value is not changed).
\<close>

theorem fill_diagonal_requires_inplace_False:
  "(inplace \<or> wrap \<longrightarrow> fill_diagonal a val wrap inplace = Inl NotImplementedError)
   \<and> fill_diagonal_default a val = Inl NotImplementedError
   \<and> (\<forall>r. fill_diagonal a val wrap inplace = Inr r \<longrightarrow> \<not> inplace \<and> \<not> wrap \<and> shape r = shape a)"
proof (intro conjI allI impI)
  assume "inplace \<or> wrap"
  then show "fill_diagonal a val wrap inplace = Inl NotImplementedError"
    by (auto simp: fill_diagonal_def)
next
  show "fill_diagonal_default a val = Inl NotImplementedError"
    by (simp add: fill_diagonal_default_def fill_diagonal_def)
next
  fix r assume r: "fill_diagonal a val wrap inplace = Inr r"
  then show "\<not> inplace" by (auto simp: fill_diagonal_def split: if_splits)
  from r show "\<not> wrap" by (auto simp: fill_diagonal_def split: if_splits)
  from r show "shape r = shape a"
    by (auto simp: fill_diagonal_def Let_def shape_at_set_nd split: if_splits sum.splits)
qed

lemma fd_ex: "fill_diagonal \<lparr>shape = [2, 2], data = [0, 0, 0, 0 :: int]\<rparr> (of_list [1, 2]) False False
     = Inr \<lparr>shape = [2, 2], data = [1, 0, 0, 2]\<rparr>"
  by code_simp

theorem fill_diagonal_requires_inplace_False_witness:
  "fill_diagonal \<lparr>shape = [2, 2], data = [0, 0, 0, 0 :: int]\<rparr> (of_list [1, 2]) False True
     = Inl NotImplementedError
   \<and> fill_diagonal \<lparr>shape = [2, 2], data = [0, 0, 0, 0 :: int]\<rparr> (of_list [1, 2]) True False
     = Inl NotImplementedError
   \<and> fill_diagonal \<lparr>shape = [2, 2], data = [0, 0, 0, 0 :: int]\<rparr> (of_list [1, 2]) False False
     = Inr \<lparr>shape = [2, 2], data = [1, 0, 0, 2]\<rparr>"
  using fill_diagonal_requires_inplace_False
      [of True False "\<lparr>shape = [2, 2], data = [0, 0, 0, 0 :: int]\<rparr>" "of_list [1, 2]"]
    fill_diagonal_requires_inplace_False
      [of False True "\<lparr>shape = [2, 2], data = [0, 0, 0, 0 :: int]\<rparr>" "of_list [1, 2]"]
    fd_ex
  by simp

subsection \<open>Claims about insert and delete\<close>

text \<open>
  C8.  For in-range insertion indices \<open>i\<close> (each in \<open>[0, len(a)]\<close>) and values \<open>v\<close>
  (one per index, or one for all), \<open>insert(a, i, v)\<close> returns an array from which
  \<open>delete\<close>, given the positions the inserted values actually occupy (the adjusted
  indices \<open>values_ind\<close>), returns exactly \<open>a\<close>.
\<close>

theorem delete_insert_roundtrip:
  fixes a :: "'a::zero list"
  assumes "distinct ixs" "\<forall>i \<in> set ixs. 0 \<le> i \<and> i \<le> int (length a)"
    and "length vs = length ixs \<or> length vs = 1"
  shows "\<exists>out. insert a (Indices ixs) vs = Inr out
      \<and> length out = length a + length ixs
      \<and> delete out (Indices (values_ind ixs (length ixs))) False = Inr a"
proof -
  have raw: "(if length ixs = 1 then replicate (length vs) (ixs ! 0) else ixs) = ixs"
  proof (cases "length ixs = 1")
    case True
    then have "length vs = 1" using assms(3) by auto
    moreover from True obtain x where "ixs = [x]" by (cases ixs) auto
    ultimately show ?thesis by simp
  next
    case False
    then show ?thesis by simp
  qed
  have ii: "insert_indices (Indices ixs) (length vs) (length a) = Inr ixs"
    using raw normalize_indices_id[OF assms(2)] by (simp add: insert_indices_def)
  have shp: "length ixs = length vs \<or> length vs = 1" using assms(3) by auto
  note unf = insert_unfold[OF ii shp]
  have len1: "length (at_set (replicate (length a + length ixs) (0::'a))
              (map nat (values_ind ixs (length ixs)))
              (if length vs = 1 then replicate (length (values_ind ixs (length ixs))) (vs ! 0)
               else vs)) = length a + length ixs"
    by (simp add: at_set_length)
  show ?thesis
    using unf delete_after_scatter[OF assms(2) len1] by (simp add: at_set_length)
qed

theorem delete_insert_roundtrip_witness:
  "distinct [4, 2, 5 :: int] \<and> (2::int) \<le> int (length [0, 1, 2, 3, 4 :: int])
   \<and> (5::int) \<le> int (length [0, 1, 2, 3, 4 :: int])
   \<and> insert [0, 1, 2, 3, 4 :: int] (Indices [4, 2, 5]) [10, 11, 12] = Inr [0, 1, 11, 2, 3, 10, 4, 12]
   \<and> values_ind [4, 2, 5] 3 = [5, 2, 7]
   \<and> delete [0, 1, 11, 2, 3, 10, 4, 12 :: int] (Indices [5, 2, 7]) False = Inr [0, 1, 2, 3, 4]"
proof -
  have 1: "insert [0, 1, 2, 3, 4 :: int] (Indices [4, 2, 5]) [10, 11, 12] = Inr [0, 1, 11, 2, 3, 10, 4, 12]"
    by code_simp
  have 2: "values_ind [4, 2, 5] 3 = [5, 2, 7]" by code_simp
  have 3: "length [4, 2, 5 :: int] = 3" by simp
  show ?thesis
    using delete_insert_roundtrip[of "[4, 2, 5]" "[0, 1, 2, 3, 4 :: int]" "[10, 11, 12]"]
    unfolding 1 3 2 by simp
qed




subsection \<open>Claims about histogram\<close>






end
